theory Spec2Isabelle
  imports Main "HOL-Library.Sublist"
begin

section \<open>Strings as the front end uses them\<close>

text \<open>
  The parser of \<^verbatim>\<open>AgentFrontend/app/utils/streamUtils.ts\<close> and the chat component of
  \<^verbatim>\<open>AgentFrontend/app/components/ChatComponent.tsx\<close> work on JavaScript strings. A string
  is modelled as a \<^typ>\<open>string\<close>, one \<^typ>\<open>char\<close> per UTF-16 code unit, which covers the code
  units below 256 (ASCII and Latin-1). Within that range the functions below compute what
  the JavaScript built-ins compute.
\<close>

text \<open>White space of \<^verbatim>\<open>String.prototype.trim\<close> and of the regular expression class
  \<^verbatim>\<open>\s\<close>: TAB, LF, VT, FF, CR, SPACE and NBSP.\<close>

definition isWhiteSpace :: "char \<Rightarrow> bool" where
  "isWhiteSpace c = ((of_char c :: nat) \<in> {9, 10, 11, 12, 13, 32, 160})"

definition trim :: "string \<Rightarrow> string" where
  "trim s = rev (dropWhile isWhiteSpace (rev (dropWhile isWhiteSpace s)))"

text \<open>\<^verbatim>\<open>toLowerCase\<close> on one code unit: A-Z, and the Latin-1 capitals except the
  multiplication sign, move up by 32.\<close>

definition lowerChar :: "char \<Rightarrow> char" where
  "lowerChar c =
     (let n = (of_char c :: nat)
      in if (65 \<le> n \<and> n \<le> 90) \<or> (192 \<le> n \<and> n \<le> 222 \<and> n \<noteq> 215)
         then char_of (n + 32) else c)"

definition toLowerCase :: "string \<Rightarrow> string" where
  "toLowerCase s = map lowerChar s"

text \<open>\<^verbatim>\<open>s.indexOf(pat)\<close>; \<open>None\<close> stands for the result \<^verbatim>\<open>-1\<close>.\<close>

fun indexOf :: "string \<Rightarrow> string \<Rightarrow> nat option" where
  "indexOf [] pat = (if pat = [] then Some 0 else None)"
| "indexOf (c # cs) pat =
     (if prefix pat (c # cs) then Some 0 else map_option Suc (indexOf cs pat))"

text \<open>\<^verbatim>\<open>s.indexOf(pat, from)\<close>: the start position is clamped to the length.\<close>

definition indexOf_from :: "string \<Rightarrow> string \<Rightarrow> nat \<Rightarrow> nat option" where
  "indexOf_from s pat i =
     (let j = min i (length s) in map_option (\<lambda>k. k + j) (indexOf (drop j s) pat))"

definition includes_str :: "string \<Rightarrow> string \<Rightarrow> bool" where
  "includes_str s pat = (indexOf s pat \<noteq> None)"

definition includes_from :: "string \<Rightarrow> string \<Rightarrow> nat \<Rightarrow> bool" where
  "includes_from s pat i = (indexOf_from s pat i \<noteq> None)"

text \<open>\<^verbatim>\<open>s.substring(a, b)\<close>: both ends are clamped to the length and swapped when
  \<open>a > b\<close>.\<close>

definition substring :: "string \<Rightarrow> nat \<Rightarrow> nat \<Rightarrow> string" where
  "substring s a b =
     (let a' = min a (length s); b' = min b (length s);
          lo = min a' b'; hi = max a' b'
      in take (hi - lo) (drop lo s))"

text \<open>\<^verbatim>\<open>s.substring(a)\<close>.\<close>

definition substring_from :: "string \<Rightarrow> nat \<Rightarrow> string" where
  "substring_from s a = drop (min a (length s)) s"


section \<open>The regular expressions of the extractor\<close>

text \<open>
  The expressions used by \<^verbatim>\<open>extractTagsFromContent\<close> are built from literals, the lazy
  \<^verbatim>\<open>[\s\S]*?\<close>, one greedy class \<^verbatim>\<open>[:\s]*\<close> and one alternation. Each piece is a
  backtracking matcher in continuation style: it takes the matcher \<open>k\<close> for the rest of the
  expression and the text at the current position, and returns what \<open>k\<close> returns, or
  \<open>None\<close> when no way of matching exists.
\<close>

text \<open>End of the expression: the result is the text after the match.\<close>

definition accept :: "string \<Rightarrow> string option" where
  "accept s = Some s"

text \<open>A literal.\<close>

definition lit :: "string \<Rightarrow> (string \<Rightarrow> 'a option) \<Rightarrow> string \<Rightarrow> 'a option" where
  "lit l k s = (if prefix l s then k (drop (length l) s) else None)"

text \<open>
  \<open>scan k\<close> tries \<open>k\<close> at the current position and, when that fails, one code unit later,
  and so on. This is the non-capturing lazy \<^verbatim>\<open>[\s\S]*?\<close>, and it is also how the engine
  chooses the start of an unanchored match: the leftmost start index at which the rest
  matches.
\<close>

fun scan :: "(string \<Rightarrow> 'a option) \<Rightarrow> string \<Rightarrow> 'a option" where
  "scan k [] = k []"
| "scan k (c # cs) = (case k (c # cs) of Some r \<Rightarrow> Some r | None \<Rightarrow> scan k cs)"

text \<open>The capturing lazy group \<^verbatim>\<open>([\s\S]*?)\<close>: as \<open>scan\<close>, and the skipped text is
  returned with the result.\<close>

fun capture_lazy :: "(string \<Rightarrow> 'a option) \<Rightarrow> string \<Rightarrow> (string \<times> 'a) option" where
  "capture_lazy k [] = map_option (Pair []) (k [])"
| "capture_lazy k (c # cs) =
     (case k (c # cs) of
        Some r \<Rightarrow> Some ([], r)
      | None \<Rightarrow> map_option (apfst ((#) c)) (capture_lazy k cs))"

text \<open>The greedy class \<^verbatim>\<open>[:\s]*\<close>: take as many members of the class as there are,
  and give them back one by one while the rest fails.\<close>

fun greedy_class :: "(char \<Rightarrow> bool) \<Rightarrow> (string \<Rightarrow> 'a option) \<Rightarrow> string \<Rightarrow> 'a option" where
  "greedy_class P k [] = k []"
| "greedy_class P k (c # cs) =
     (if P c
      then (case greedy_class P k cs of Some r \<Rightarrow> Some r | None \<Rightarrow> k (c # cs))
      else k (c # cs))"

text \<open>The capturing alternation \<^verbatim>\<open>(w1|w2|...)\<close> of literals, tried in order.\<close>

fun capture_alt :: "string list \<Rightarrow> (string \<Rightarrow> 'a option) \<Rightarrow> string \<Rightarrow> (string \<times> 'a) option" where
  "capture_alt [] k s = None"
| "capture_alt (w # ws) k s =
     (case lit w k s of Some r \<Rightarrow> Some (w, r) | None \<Rightarrow> capture_alt ws k s)"

text \<open>\<^verbatim>\<open>/<tag>([\s\S]*?)<\/tag>/\<close> at a fixed start, and unanchored: the first group and
  the text after the match.\<close>

definition tag_here :: "string \<Rightarrow> string \<Rightarrow> string \<Rightarrow> (string \<times> string) option" where
  "tag_here opn cls = lit opn (capture_lazy (lit cls accept))"

definition tag_regex :: "string \<Rightarrow> string \<Rightarrow> string \<Rightarrow> (string \<times> string) option" where
  "tag_regex opn cls = scan (tag_here opn cls)"

text \<open>\<^verbatim>\<open>/<feature>[\s\S]*?<name>([\s\S]*?)<\/name>[\s\S]*?<\/feature>/\<close>.\<close>

definition feature_regex :: "string \<Rightarrow> (string \<times> string) option" where
  "feature_regex =
     scan (lit ''<feature>'' (scan (lit ''<name>''
       (capture_lazy (lit ''</name>'' (scan (lit ''</feature>'' accept)))))))"

text \<open>\<^verbatim>\<open>/complexity[:\s]*(low|medium|high)/\<close>.\<close>

definition complexity_regex :: "string \<Rightarrow> (string \<times> string) option" where
  "complexity_regex =
     scan (lit ''complexity''
       (greedy_class (\<lambda>c. c = CHR '':'' \<or> isWhiteSpace c)
         (capture_alt [''low'', ''medium'', ''high''] accept)))"

text \<open>What the matchers consume, used for the termination of the \<^verbatim>\<open>exec\<close> loops.\<close>

lemma accept_result: "accept s = Some r \<Longrightarrow> r = s"
  by (simp add: accept_def)

lemma lit_result: "lit l k s = Some r \<Longrightarrow> \<exists>t. s = l @ t \<and> k t = Some r"
  by (auto simp: lit_def prefix_def split: if_splits)

lemma scan_result: "scan k s = Some r \<Longrightarrow> \<exists>p t. s = p @ t \<and> k t = Some r"
proof (induction s)
  case Nil
  then show ?case by simp
next
  case (Cons c cs)
  show ?case
  proof (cases "k (c # cs)")
    case None
    with Cons.prems have "scan k cs = Some r" by simp
    from Cons.IH [OF this] obtain p t where "cs = p @ t" "k t = Some r" by blast
    then have "c # cs = (c # p) @ t \<and> k t = Some r" by simp
    then show ?thesis by blast
  next
    case (Some a)
    with Cons.prems have "c # cs = [] @ (c # cs) \<and> k (c # cs) = Some r" by simp
    then show ?thesis by blast
  qed
qed

lemma capture_lazy_result:
  "capture_lazy k s = Some (cap, r) \<Longrightarrow> \<exists>t. s = cap @ t \<and> k t = Some r"
proof (induction s arbitrary: cap)
  case Nil
  then show ?case by auto
next
  case (Cons c cs)
  show ?case
  proof (cases "k (c # cs)")
    case None
    with Cons.prems obtain cap' where c: "capture_lazy k cs = Some (cap', r)" "cap = c # cap'"
      by auto
    from Cons.IH [OF c(1)] c(2) show ?thesis by auto
  next
    case (Some a)
    with Cons.prems show ?thesis by auto
  qed
qed

lemma tag_regex_result:
  assumes "tag_regex opn cls s = Some (cap, rest)"
  shows "\<exists>p. s = p @ opn @ cap @ cls @ rest"
proof -
  from assms obtain p t where 1: "s = p @ t" "tag_here opn cls t = Some (cap, rest)"
    unfolding tag_regex_def by (blast dest: scan_result)
  from 1(2) obtain t2 where 2: "t = opn @ t2" "capture_lazy (lit cls accept) t2 = Some (cap, rest)"
    unfolding tag_here_def by (blast dest: lit_result)
  from 2(2) obtain t3 where 3: "t2 = cap @ t3" "lit cls accept t3 = Some rest"
    by (blast dest: capture_lazy_result)
  from 3(2) obtain t4 where 4: "t3 = cls @ t4" "accept t4 = Some rest"
    by (blast dest: lit_result)
  from 1(1) 2(1) 3(1) 4 show ?thesis by (auto dest: accept_result)
qed

lemma feature_regex_result:
  assumes "feature_regex s = Some (cap, rest)"
  shows "\<exists>p g1 g2. s = p @ ''<feature>'' @ g1 @ ''<name>'' @ cap @ ''</name>'' @ g2 @ ''</feature>'' @ rest"
proof -
  from assms obtain p t1 where 1: "s = p @ t1"
    "lit ''<feature>'' (scan (lit ''<name>''
       (capture_lazy (lit ''</name>'' (scan (lit ''</feature>'' accept)))))) t1 = Some (cap, rest)"
    unfolding feature_regex_def by (blast dest: scan_result)
  from 1(2) obtain t2 where 2: "t1 = ''<feature>'' @ t2"
    "scan (lit ''<name>''
       (capture_lazy (lit ''</name>'' (scan (lit ''</feature>'' accept))))) t2 = Some (cap, rest)"
    by (blast dest: lit_result)
  from 2(2) obtain g1 t3 where 3: "t2 = g1 @ t3"
    "lit ''<name>'' (capture_lazy (lit ''</name>'' (scan (lit ''</feature>'' accept)))) t3
       = Some (cap, rest)"
    by (blast dest: scan_result)
  from 3(2) obtain t4 where 4: "t3 = ''<name>'' @ t4"
    "capture_lazy (lit ''</name>'' (scan (lit ''</feature>'' accept))) t4 = Some (cap, rest)"
    by (blast dest: lit_result)
  from 4(2) obtain t5 where 5: "t4 = cap @ t5"
    "lit ''</name>'' (scan (lit ''</feature>'' accept)) t5 = Some rest"
    by (blast dest: capture_lazy_result)
  from 5(2) obtain t6 where 6: "t5 = ''</name>'' @ t6"
    "scan (lit ''</feature>'' accept) t6 = Some rest"
    by (blast dest: lit_result)
  from 6(2) obtain g2 t7 where 7: "t6 = g2 @ t7" "lit ''</feature>'' accept t7 = Some rest"
    by (blast dest: scan_result)
  from 7(2) obtain t8 where 8: "t7 = ''</feature>'' @ t8" "accept t8 = Some rest"
    by (blast dest: lit_result)
  from 8(2) have "t8 = rest" by (simp add: accept_def)
  with 1(1) 2(1) 3(1) 4(1) 5(1) 6(1) 7(1) 8(1)
  have "s = p @ ''<feature>'' @ g1 @ ''<name>'' @ cap @ ''</name>'' @ g2 @ ''</feature>'' @ rest"
    by simp
  then show ?thesis by blast
qed

text \<open>
  The loops \<^verbatim>\<open>while ((m = regex.exec(content)) !== null)\<close> over a global expression: each
  \<^verbatim>\<open>exec\<close> resumes at \<^verbatim>\<open>lastIndex\<close>, the end of the previous match, so the next
  search runs on the text after that match. The lists hold the first group of every match.
\<close>

function exampleMatches :: "string \<Rightarrow> string list" where
  "exampleMatches s =
     (case tag_regex ''<example>'' ''</example>'' s of
        None \<Rightarrow> []
      | Some (cap, rest) \<Rightarrow> cap # exampleMatches rest)"
  by pat_completeness auto
termination
proof (relation "measure length")
  fix s :: string and x2 cap rest
  assume "tag_regex ''<example>'' ''</example>'' s = Some x2" "(cap, rest) = x2"
  then have "tag_regex ''<example>'' ''</example>'' s = Some (cap, rest)" by simp
  from tag_regex_result [OF this] show "(rest, s) \<in> measure length" by auto
qed simp

declare exampleMatches.simps [simp del]

function featureMatches :: "string \<Rightarrow> string list" where
  "featureMatches s =
     (case feature_regex s of
        None \<Rightarrow> []
      | Some (cap, rest) \<Rightarrow> cap # featureMatches rest)"
  by pat_completeness auto
termination
proof (relation "measure length")
  fix s :: string and x2 cap rest
  assume "feature_regex s = Some x2" "(cap, rest) = x2"
  then have "feature_regex s = Some (cap, rest)" by simp
  from feature_regex_result [OF this] show "(rest, s) \<in> measure length" by auto
qed simp

declare featureMatches.simps [simp del]


section \<open>The record and \<^verbatim>\<open>parseInt\<close>\<close>

text \<open>
  \<^verbatim>\<open>parseInt(s)\<close> without a radix: leading white space is skipped, a sign is read, a
  prefix \<^verbatim>\<open>0x\<close> or \<^verbatim>\<open>0X\<close> selects base 16, and the longest run of digits is read. With
  no digit the result is \<^verbatim>\<open>NaN\<close>; it never throws. \<open>Num n\<close> carries the exact value of
  the digits read. JavaScript then rounds it to the nearest double, which is \<^verbatim>\<open>Infinity\<close>
  for very long runs of digits, and gives \<^verbatim>\<open>-0\<close> for a negative zero; the rounding is
  not modelled, and nothing below depends on the value of a number that was read.
\<close>

datatype js_number = NaN | Num int

definition digitVal :: "char \<Rightarrow> nat option" where
  "digitVal c =
     (let n = (of_char c :: nat)
      in if 48 \<le> n \<and> n \<le> 57 then Some (n - 48)
         else if 97 \<le> n \<and> n \<le> 122 then Some (n - 87)
         else if 65 \<le> n \<and> n \<le> 90 then Some (n - 55)
         else None)"

definition isRadixDigit :: "nat \<Rightarrow> char \<Rightarrow> bool" where
  "isRadixDigit R c = (case digitVal c of Some d \<Rightarrow> d < R | None \<Rightarrow> False)"

definition digitsValue :: "nat \<Rightarrow> string \<Rightarrow> nat" where
  "digitsValue R Z =
     foldl (\<lambda>acc c. acc * R + (case digitVal c of Some d \<Rightarrow> d | None \<Rightarrow> 0)) 0 Z"

definition parseInt :: "string \<Rightarrow> js_number" where
  "parseInt s =
     (let S = dropWhile isWhiteSpace s;
          neg = (S \<noteq> [] \<and> hd S = CHR ''-'');
          S1 = (if S \<noteq> [] \<and> (hd S = CHR ''-'' \<or> hd S = CHR ''+'') then tl S else S);
          hex = (prefix ''0x'' S1 \<or> prefix ''0X'' S1);
          R = (if hex then 16 else 10);
          S2 = (if hex then drop 2 S1 else S1);
          Z = takeWhile (isRadixDigit R) S2
      in if Z = [] then NaN
         else Num ((if neg then - 1 else 1) * int (digitsValue R Z)))"

text \<open>
  \<^verbatim>\<open>Partial<UniswapHookData>\<close> as the extractor fills it: a key that is absent is
  \<open>None\<close>. \<open>u_rawContent\<close> and \<open>u_replyContent\<close> are the keys \<^verbatim>\<open>_rawContent\<close> and
  \<^verbatim>\<open>_replyContent\<close>. \<^verbatim>\<open>hookType\<close> holds the phrase itself. The keys that no code
  of the front end writes (\<^verbatim>\<open>notes\<close>, \<^verbatim>\<open>author\<close>, \<^verbatim>\<open>timestamp\<close>) are left out.
\<close>

record hook_data =
  name :: "string option"
  description :: "string option"
  code :: "string option"
  gasEstimate :: "js_number option"
  complexity :: "string option"
  functionalities :: "string list option"
  testCode :: "string option"
  examples :: "string list option"
  hookType :: "string option"
  dependencies :: "string list option"
  version :: "string option"
  u_replyContent :: "string option"
  u_rawContent :: "string option"

definition emptyData :: hook_data where
  "emptyData = \<lparr> name = None, description = None, code = None, gasEstimate = None,
     complexity = None, functionalities = None, testCode = None, examples = None,
     hookType = None, dependencies = None, version = None, u_replyContent = None,
     u_rawContent = None \<rparr>"

text \<open>One key of the object spread \<^verbatim>\<open>{ ...a, ...b }\<close>: the value of \<open>b\<close> when \<open>b\<close>
  has the key.\<close>

definition override :: "'a option \<Rightarrow> 'a option \<Rightarrow> 'a option" where
  "override old new = (case new of Some v \<Rightarrow> Some v | None \<Rightarrow> old)"

definition spread :: "hook_data \<Rightarrow> hook_data \<Rightarrow> hook_data" where
  "spread a b = \<lparr>
     name = override (name a) (name b),
     description = override (description a) (description b),
     code = override (code a) (code b),
     gasEstimate = override (gasEstimate a) (gasEstimate b),
     complexity = override (complexity a) (complexity b),
     functionalities = override (functionalities a) (functionalities b),
     testCode = override (testCode a) (testCode b),
     examples = override (examples a) (examples b),
     hookType = override (hookType a) (hookType b),
     dependencies = override (dependencies a) (dependencies b),
     version = override (version a) (version b),
     u_replyContent = override (u_replyContent a) (u_replyContent b),
     u_rawContent = override (u_rawContent a) (u_rawContent b) \<rparr>"


section \<open>\<^verbatim>\<open>JsonStreamHandler\<close>\<close>

text \<open>\<^verbatim>\<open>const m = content.match(/<tag>([\s\S]*?)<\/tag>/); if (m && m[1]) field = m[1].trim()\<close>:
  the field is set when the first group is a non-empty string.\<close>

definition tagField :: "string \<Rightarrow> string \<Rightarrow> string \<Rightarrow> string option" where
  "tagField opn cls content =
     (case tag_regex opn cls content of
        None \<Rightarrow> None
      | Some (cap, rest) \<Rightarrow> if cap \<noteq> [] then Some (trim cap) else None)"

text \<open>The list of a global loop: \<^verbatim>\<open>if (m[1]) list.push(m[1].trim())\<close>, and the key is
  set when the list is not empty.\<close>

definition listField :: "string list \<Rightarrow> string list option" where
  "listField caps =
     (let xs = map trim (filter (\<lambda>cap. cap \<noteq> []) caps)
      in if xs \<noteq> [] then Some xs else None)"

definition hookTypes :: "string list" where
  "hookTypes = [''before swap'', ''after swap'', ''before initialize'', ''after initialize'',
     ''before modify position'', ''after modify position'']"

text \<open>The gas estimate: \<^verbatim>\<open>if (m && m[1]) hookData.gasEstimate = parseInt(m[1].trim())\<close>.
  The \<^verbatim>\<open>try\<close> around it never catches anything, \<^verbatim>\<open>parseInt\<close> does not throw.\<close>

definition gasField :: "string \<Rightarrow> js_number option" where
  "gasField content =
     (case tag_regex ''<gasEstimate>'' ''</gasEstimate>'' content of
        None \<Rightarrow> None
      | Some (cap, rest) \<Rightarrow> if cap \<noteq> [] then Some (parseInt (trim cap)) else None)"

text \<open>The complexity, searched in the lower-cased content.\<close>

definition complexityField :: "string \<Rightarrow> string option" where
  "complexityField content =
     (case complexity_regex (toLowerCase content) of
        None \<Rightarrow> None
      | Some (cap, rest) \<Rightarrow> if cap \<noteq> [] then Some cap else None)"

text \<open>The loop over \<^verbatim>\<open>hookTypes\<close> with its \<^verbatim>\<open>break\<close>: the first phrase of the list
  that the lower-cased content includes.\<close>

definition phraseField :: "string \<Rightarrow> string option" where
  "phraseField content = find (\<lambda>t. includes_str (toLowerCase content) t) hookTypes"

text \<open>
  \<^verbatim>\<open>extractTagsFromContent\<close>. \<open>foundData\<close> is the value of \<^verbatim>\<open>foundAnyData\<close> when the
  default of \<^verbatim>\<open>hookType\<close> is decided; the reply is looked for after that. The result is
  \<open>None\<close> for \<^verbatim>\<open>null\<close>. This is the body when no statement throws; the exceptions and
  the \<^verbatim>\<open>catch\<close> are in \<open>extractTagsFromContent_try\<close> below.
\<close>

definition extractTagsFromContent :: "string \<Rightarrow> hook_data option" where
  "extractTagsFromContent content =
     (let nameV = tagField ''<name>'' ''</name>'' content;
          descriptionV = tagField ''<description>'' ''</description>'' content;
          codeV = tagField ''<hookCode>'' ''</hookCode>'' content;
          gasV = gasField content;
          complexityV = complexityField content;
          functionalitiesV = listField (featureMatches content);
          testCodeV = tagField ''<testCode>'' ''</testCode>'' content;
          examplesV = listField (exampleMatches content);
          typeV = phraseField content;
          foundData = (nameV \<noteq> None \<or> descriptionV \<noteq> None \<or> codeV \<noteq> None \<or> gasV \<noteq> None
                       \<or> complexityV \<noteq> None \<or> functionalitiesV \<noteq> None \<or> testCodeV \<noteq> None
                       \<or> examplesV \<noteq> None \<or> typeV \<noteq> None);
          hookTypeV = (case typeV of
                    Some t \<Rightarrow> Some t
                  | None \<Rightarrow> if foundData then Some ''custom'' else None);
          replyV = tagField ''<reply>'' ''</reply>'' content;
          foundAnyData = (foundData \<or> replyV \<noteq> None)
      in if foundAnyData
         then Some \<lparr> name = nameV, description = descriptionV, code = codeV,
                gasEstimate = gasV, complexity = complexityV,
                functionalities = functionalitiesV, testCode = testCodeV,
                examples = examplesV, hookType = hookTypeV, dependencies = None,
                version = None, u_replyContent = replyV, u_rawContent = None \<rparr>
         else None)"

text \<open>The handler object: \<^verbatim>\<open>rawContent\<close> and \<^verbatim>\<open>lastParsedData\<close> (the lexer is never
  used).\<close>

record handler =
  rawContent :: string
  lastParsedData :: hook_data

definition newHandler :: handler where
  "newHandler = \<lparr> rawContent = [], lastParsedData = emptyData \<rparr>"

text \<open>\<^verbatim>\<open>processFragment\<close>: the returned object and the handler afterwards, when no
  statement throws; \<open>processFragment_try\<close> below has the exceptions and the \<^verbatim>\<open>catch\<close>.\<close>

definition processFragment :: "string \<Rightarrow> handler \<Rightarrow> hook_data \<times> handler" where
  "processFragment contentFragment h =
     (let raw = rawContent h @ contentFragment;
          parsed = (case extractTagsFromContent raw of
                      Some hookData \<Rightarrow> spread (lastParsedData h) hookData
                    | None \<Rightarrow> lastParsedData h)
      in (parsed \<lparr> u_rawContent := Some raw \<rparr>,
          \<lparr> rawContent = raw, lastParsedData = parsed \<rparr>))"

text \<open>\<^verbatim>\<open>getFinalData\<close>: a key is deleted when its value is truthy, that is, a non-empty
  string.\<close>

definition truthy :: "string option \<Rightarrow> bool" where
  "truthy v = (case v of Some s \<Rightarrow> s \<noteq> [] | None \<Rightarrow> False)"

definition getFinalData :: "handler \<Rightarrow> hook_data" where
  "getFinalData h =
     (let d = lastParsedData h;
          d1 = (if truthy (u_rawContent d) then d \<lparr> u_rawContent := None \<rparr> else d);
          d2 = (if truthy (u_replyContent d1) then d1 \<lparr> u_replyContent := None \<rparr> else d1)
      in d2)"

text \<open>A streaming session: the fragments are fed in order to one handler.\<close>

definition feed :: "handler \<Rightarrow> string list \<Rightarrow> handler" where
  "feed h fragments = foldl (\<lambda>h f. snd (processFragment f h)) h fragments"


subsection \<open>The handler with its exceptions\<close>

text \<open>
  The definitions above give what the two methods compute when no statement throws.
  The following ones keep the exceptions: in these bodies the operations that can throw
  are the read of a property of \<^verbatim>\<open>null\<close> (\<^verbatim>\<open>m[1]\<close> on a failed match,
  \<^verbatim>\<open>Object.keys(null)\<close>), a \<^verbatim>\<open>TypeError\<close>. A computation is a value of
  \<open>js_error + 'a\<close>, and \<^verbatim>\<open>try\<close>/\<^verbatim>\<open>catch\<close> is a case distinction on it.
\<close>

datatype js_error = TypeError

definition bindE :: "js_error + 'a \<Rightarrow> ('a \<Rightarrow> js_error + 'b) \<Rightarrow> js_error + 'b" where
  "bindE m f = (case m of Inl e \<Rightarrow> Inl e | Inr v \<Rightarrow> f v)"

text \<open>\<^verbatim>\<open>m[1]\<close> for the result \<open>m\<close> of \<^verbatim>\<open>match\<close> or \<^verbatim>\<open>exec\<close>.\<close>

definition group1 :: "(string \<times> string) option \<Rightarrow> js_error + string" where
  "group1 m = (case m of None \<Rightarrow> Inl TypeError | Some (cap, rest) \<Rightarrow> Inr cap)"

text \<open>\<^verbatim>\<open>Object.keys(d)\<close>, whose value is only logged.\<close>

definition objectKeys :: "hook_data option \<Rightarrow> js_error + unit" where
  "objectKeys d = (case d of None \<Rightarrow> Inl TypeError | Some v \<Rightarrow> Inr ())"

text \<open>\<^verbatim>\<open>if (m && m[1]) field = m[1].trim()\<close>: the conjunction reads \<^verbatim>\<open>m[1]\<close> only when
  \<open>m\<close> is not \<^verbatim>\<open>null\<close>.\<close>

definition tagField_try :: "string \<Rightarrow> string \<Rightarrow> string \<Rightarrow> js_error + string option" where
  "tagField_try opn cls content =
     (let m = tag_regex opn cls content
      in if m = None then Inr None
         else bindE (group1 m) (\<lambda>g.
                if g \<noteq> [] then bindE (group1 m) (\<lambda>g'. Inr (Some (trim g')))
                else Inr None))"

text \<open>The gas estimate, with the inner \<^verbatim>\<open>try\<close> around the assignment.\<close>

definition gasField_try :: "string \<Rightarrow> js_error + js_number option" where
  "gasField_try content =
     (let m = tag_regex ''<gasEstimate>'' ''</gasEstimate>'' content
      in if m = None then Inr None
         else bindE (group1 m) (\<lambda>g.
                if g \<noteq> []
                then (case bindE (group1 m) (\<lambda>g'. Inr (parseInt (trim g'))) of
                        Inl e \<Rightarrow> Inr None
                      | Inr n \<Rightarrow> Inr (Some n))
                else Inr None))"

definition complexityField_try :: "string \<Rightarrow> js_error + string option" where
  "complexityField_try content =
     (let m = complexity_regex (toLowerCase content)
      in if m = None then Inr None
         else bindE (group1 m) (\<lambda>g.
                if g \<noteq> [] then bindE (group1 m) (\<lambda>g'. Inr (Some g')) else Inr None))"

text \<open>
  The body of the \<^verbatim>\<open>try\<close> of \<^verbatim>\<open>extractTagsFromContent\<close>. The two loops read \<^verbatim>\<open>m[1]\<close>
  under their own condition \<^verbatim>\<open>m !== null\<close>, and the loop over the phrases reads no
  property of a match.
\<close>

definition extractTagsFromContent_body :: "string \<Rightarrow> js_error + hook_data option" where
  "extractTagsFromContent_body content =
     bindE (tagField_try ''<name>'' ''</name>'' content) (\<lambda>nameV.
     bindE (tagField_try ''<description>'' ''</description>'' content) (\<lambda>descriptionV.
     bindE (tagField_try ''<hookCode>'' ''</hookCode>'' content) (\<lambda>codeV.
     bindE (gasField_try content) (\<lambda>gasV.
     bindE (complexityField_try content) (\<lambda>complexityV.
     bindE (Inr (listField (featureMatches content))) (\<lambda>functionalitiesV.
     bindE (tagField_try ''<testCode>'' ''</testCode>'' content) (\<lambda>testCodeV.
     bindE (Inr (listField (exampleMatches content))) (\<lambda>examplesV.
     bindE (Inr (phraseField content)) (\<lambda>typeV.
       (let foundData = (nameV \<noteq> None \<or> descriptionV \<noteq> None \<or> codeV \<noteq> None
                         \<or> gasV \<noteq> None \<or> complexityV \<noteq> None \<or> functionalitiesV \<noteq> None
                         \<or> testCodeV \<noteq> None \<or> examplesV \<noteq> None \<or> typeV \<noteq> None);
            hookTypeV = (case typeV of
                           Some t \<Rightarrow> Some t
                         | None \<Rightarrow> if foundData then Some ''custom'' else None)
        in bindE (tagField_try ''<reply>'' ''</reply>'' content) (\<lambda>replyV.
             Inr (if foundData \<or> replyV \<noteq> None
                  then Some \<lparr> name = nameV, description = descriptionV, code = codeV,
                         gasEstimate = gasV, complexity = complexityV,
                         functionalities = functionalitiesV, testCode = testCodeV,
                         examples = examplesV, hookType = hookTypeV, dependencies = None,
                         version = None, u_replyContent = replyV, u_rawContent = None \<rparr>
                  else None))))))))))))"

text \<open>\<^verbatim>\<open>extractTagsFromContent\<close> with its \<^verbatim>\<open>catch\<close>, which returns \<^verbatim>\<open>null\<close>.\<close>

definition extractTagsFromContent_try :: "string \<Rightarrow> js_error + hook_data option" where
  "extractTagsFromContent_try content =
     (case extractTagsFromContent_body content of
        Inl e \<Rightarrow> Inr None
      | Inr r \<Rightarrow> Inr r)"

text \<open>
  The body of the \<^verbatim>\<open>try\<close> of \<^verbatim>\<open>processFragment\<close>: the result or the exception, and the
  handler as the statements executed so far have left it.
\<close>

definition processFragment_body ::
  "string \<Rightarrow> handler \<Rightarrow> (js_error + hook_data) \<times> handler" where
  "processFragment_body contentFragment h =
     (let h1 = h \<lparr> rawContent := rawContent h @ contentFragment \<rparr>
      in case extractTagsFromContent_try (rawContent h1) of
           Inl e \<Rightarrow> (Inl e, h1)
         | Inr None \<Rightarrow>
             (Inr ((lastParsedData h1) \<lparr> u_rawContent := Some (rawContent h1) \<rparr>), h1)
         | Inr (Some hookData) \<Rightarrow>
             (case objectKeys (Some hookData) of
                Inl e \<Rightarrow> (Inl e, h1)
              | Inr u \<Rightarrow>
                  (let h2 = h1 \<lparr> lastParsedData := spread (lastParsedData h1) hookData \<rparr>
                   in (Inr ((lastParsedData h2) \<lparr> u_rawContent := Some (rawContent h2) \<rparr>),
                       h2))))"

text \<open>\<^verbatim>\<open>processFragment\<close> with its \<^verbatim>\<open>catch\<close>, which returns the record and the buffer
  as they are at that moment.\<close>

definition processFragment_try ::
  "string \<Rightarrow> handler \<Rightarrow> (js_error + hook_data) \<times> handler" where
  "processFragment_try contentFragment h =
     (case processFragment_body contentFragment h of
        (Inl e, h') \<Rightarrow>
          (Inr ((lastParsedData h') \<lparr> u_rawContent := Some (rawContent h') \<rparr>), h')
      | (Inr v, h') \<Rightarrow> (Inr v, h'))"



section \<open>The chat component\<close>

text \<open>
  The state of \<^verbatim>\<open>ChatComponent\<close> that the stream handling reads and writes: the React
  state variables, the two refs, and \<open>calls\<close>, the callbacks of the parent invoked so far,
  in order. State setters are applied in the order in which they are called.
\<close>

datatype parent_call = OnStreamingChange bool | OnReplyReceived string | OnError string

record parsed_content =
  reply :: string
  hookCode :: string

record chat_state =
  streamingReply :: string
  isStreamingReply :: bool
  streamError :: "string option"
  isTyping :: bool
  parsedContent :: parsed_content
  bufferRef :: string
  accumulatedReplyRef :: string
  calls :: "parent_call list"

text \<open>The state of a freshly mounted component.\<close>

definition initialChat :: chat_state where
  "initialChat = \<lparr> streamingReply = [], isStreamingReply = False, streamError = None,
     isTyping = False, parsedContent = \<lparr> reply = [], hookCode = [] \<rparr>, bufferRef = [],
     accumulatedReplyRef = [], calls = [] \<rparr>"

definition resetStreamingState :: "bool \<Rightarrow> chat_state \<Rightarrow> chat_state" where
  "resetStreamingState isStreaming st =
     (let st1 = (if isStreaming
                 then st \<lparr> streamingReply := [], bufferRef := [], accumulatedReplyRef := [],
                         parsedContent := \<lparr> reply = [], hookCode = [] \<rparr> \<rparr>
                 else st \<lparr> streamingReply := [], bufferRef := [] \<rparr>)
      in st1 \<lparr> isStreamingReply := isStreaming, streamError := None, isTyping := isStreaming,
               calls := calls st1 @ [OnStreamingChange isStreaming] \<rparr>)"

definition handleStreamError :: "string \<Rightarrow> chat_state \<Rightarrow> chat_state" where
  "handleStreamError errorMessage st =
     resetStreamingState False
       (st \<lparr> streamError := Some errorMessage, calls := calls st @ [OnError errorMessage] \<rparr>)"

text \<open>
  The search shared by \<^verbatim>\<open>appendTagContentToReply\<close> and \<^verbatim>\<open>extractHookCode\<close>: the first
  opening tag, the first closing tag at or after its end, the trimmed text between them,
  and the buffer without the region. \<^verbatim>\<open>buffer.includes(x)\<close> is \<^verbatim>\<open>indexOf(x) !== -1\<close>.
\<close>

definition findRegion :: "string \<Rightarrow> string \<Rightarrow> string \<Rightarrow> (string \<times> string) option" where
  "findRegion buffer openTag closeTag =
     (case indexOf buffer openTag of
        None \<Rightarrow> None
      | Some i \<Rightarrow>
          (let startIdx = i + length openTag
           in case indexOf_from buffer closeTag startIdx of
                None \<Rightarrow> None
              | Some endIdx \<Rightarrow>
                  Some (trim (substring buffer startIdx endIdx),
                        substring buffer 0 i @ substring_from buffer (endIdx + length closeTag))))"

text \<open>
  The two helpers up to their final call of \<^verbatim>\<open>processBuffer()\<close>: \<open>Some\<close> of the state
  with the region removed when a complete region was found (the helper then calls
  \<^verbatim>\<open>processBuffer\<close>), \<open>None\<close> when the helper returns without doing anything.
\<close>

definition appendTagContentToReply ::
  "string \<Rightarrow> string \<Rightarrow> string \<Rightarrow> chat_state \<Rightarrow> chat_state option" where
  "appendTagContentToReply openTag closeTag pfx st =
     (case findRegion (bufferRef st) openTag closeTag of
        None \<Rightarrow> None
      | Some (content, buffer') \<Rightarrow>
          (let st1 = (if content \<noteq> []
                      then (let acc = accumulatedReplyRef st @ pfx @ content
                            in st \<lparr> accumulatedReplyRef := acc,
                                    parsedContent := (parsedContent st) \<lparr> reply := acc \<rparr> \<rparr>)
                      else st)
           in Some (st1 \<lparr> bufferRef := buffer' \<rparr>)))"

definition extractHookCode :: "string \<Rightarrow> string \<Rightarrow> chat_state \<Rightarrow> chat_state option" where
  "extractHookCode openTag closeTag st =
     (case findRegion (bufferRef st) openTag closeTag of
        None \<Rightarrow> None
      | Some (content, buffer') \<Rightarrow>
          (let st1 = (if content \<noteq> []
                      then st \<lparr> parsedContent := (parsedContent st) \<lparr> hookCode := content \<rparr>,
                              calls := calls st
                                @ [OnReplyReceived (''<hookCode>'' @ content @ ''</hookCode>'')] \<rparr>
                      else st)
           in Some (st1 \<lparr> bufferRef := buffer' \<rparr>)))"

text \<open>Bounds on what \<^verbatim>\<open>indexOf\<close> returns, and the removal of a region shortens the
  buffer.\<close>

lemma indexOf_Some: "indexOf s pat = Some i \<Longrightarrow> prefix pat (drop i s) \<and> i \<le> length s"
proof (induction s arbitrary: i)
  case Nil
  then show ?case by (auto split: if_splits)
next
  case (Cons c cs)
  show ?case
  proof (cases "prefix pat (c # cs)")
    case True
    with Cons.prems show ?thesis by simp
  next
    case False
    with Cons.prems obtain j where j: "indexOf cs pat = Some j" "i = Suc j" by auto
    from Cons.IH [OF j(1)] j(2) show ?thesis by simp
  qed
qed

lemma indexOf_bound: "indexOf s pat = Some i \<Longrightarrow> i + length pat \<le> length s"
proof -
  assume "indexOf s pat = Some i"
  then have "prefix pat (drop i s)" "i \<le> length s" by (auto dest: indexOf_Some)
  then have "length pat \<le> length s - i" by (auto dest: prefix_length_le)
  with \<open>i \<le> length s\<close> show ?thesis by simp
qed

lemma indexOf_from_bound:
  "indexOf_from s pat a = Some e \<Longrightarrow> min a (length s) \<le> e \<and> e + length pat \<le> length s"
  by (auto simp: indexOf_from_def Let_def dest!: indexOf_bound)

lemma findRegion_length:
  assumes "findRegion buffer openTag closeTag = Some (content, buffer')"
  shows "length buffer' + length openTag + length closeTag \<le> length buffer"
proof -
  from assms obtain i e where i: "indexOf buffer openTag = Some i"
    and e: "indexOf_from buffer closeTag (i + length openTag) = Some e"
    and b: "buffer' = substring buffer 0 i @ substring_from buffer (e + length closeTag)"
    by (auto simp: findRegion_def Let_def split: option.splits)
  from indexOf_bound [OF i] have 1: "i + length openTag \<le> length buffer" .
  from indexOf_from_bound [OF e] 1
  have 2: "i + length openTag \<le> e" "e + length closeTag \<le> length buffer"
    by auto
  from b 1 2 have "length buffer' = i + (length buffer - (e + length closeTag))"
    by (simp add: substring_def substring_from_def)
  with 1 2 show ?thesis by arith
qed

lemma append_shrinks:
  "appendTagContentToReply ''<reply>'' ''</reply>'' [] st = Some st'
   \<Longrightarrow> length (bufferRef st') < length (bufferRef st)"
  by (auto simp: appendTagContentToReply_def Let_def split: option.splits prod.splits
      dest!: findRegion_length)

lemma extract_shrinks:
  "extractHookCode ''<hookCode>'' ''</hookCode>'' st = Some st'
   \<Longrightarrow> length (bufferRef st') < length (bufferRef st)"
  by (auto simp: extractHookCode_def Let_def split: option.splits prod.splits
      dest!: findRegion_length)

text \<open>
  \<^verbatim>\<open>processBuffer\<close>: first the reply tag, then the hook code tag; each helper that
  removed a region runs \<^verbatim>\<open>processBuffer\<close> again before it returns, and the hook code
  helper then works on the buffer that this inner run left.
\<close>

function processBuffer :: "chat_state \<Rightarrow> chat_state" where
  "processBuffer st =
     (let st1 = (case appendTagContentToReply ''<reply>'' ''</reply>'' [] st of
                   Some st' \<Rightarrow> processBuffer st'
                 | None \<Rightarrow> st)
      in case extractHookCode ''<hookCode>'' ''</hookCode>'' st1 of
           Some st'' \<Rightarrow> processBuffer st''
         | None \<Rightarrow> st1)"
  by pat_completeness auto

lemma processBuffer_length:
  "processBuffer_dom st \<Longrightarrow> length (bufferRef (processBuffer st)) \<le> length (bufferRef st)"
proof (induction st rule: processBuffer.pinduct)
  case (1 st)
  let ?st1 = "(case appendTagContentToReply ''<reply>'' ''</reply>'' [] st of
                   Some st' \<Rightarrow> processBuffer st'
                 | None \<Rightarrow> st)"
  have a: "length (bufferRef ?st1) \<le> length (bufferRef st)"
  proof (cases "appendTagContentToReply ''<reply>'' ''</reply>'' [] st")
    case None
    then show ?thesis by simp
  next
    case (Some st')
    from "1.IH"(1) [OF Some] append_shrinks [OF Some] Some show ?thesis by simp
  qed
  show ?case
  proof (cases "extractHookCode ''<hookCode>'' ''</hookCode>'' ?st1")
    case None
    with a show ?thesis by (simp add: processBuffer.psimps [OF "1.hyps"] Let_def)
  next
    case (Some st2)
    from "1.IH"(2) [OF refl Some]
    have "length (bufferRef (processBuffer st2)) \<le> length (bufferRef st2)" .
    with extract_shrinks [OF Some] a Some show ?thesis
      by (simp add: processBuffer.psimps [OF "1.hyps"] Let_def)
  qed
qed

termination processBuffer
proof (relation "measure (\<lambda>st. length (bufferRef st))")
  show "wf (measure (\<lambda>st. length (bufferRef st)))" by simp
next
  fix st x2
  assume "appendTagContentToReply ''<reply>'' ''</reply>'' [] st = Some x2"
  then show "(x2, st) \<in> measure (\<lambda>st. length (bufferRef st))"
    by (auto dest: append_shrinks)
next
  fix st x x2
  assume x: "x = (case appendTagContentToReply ''<reply>'' ''</reply>'' [] st of
                   Some st' \<Rightarrow> processBuffer st'
                 | None \<Rightarrow> st)"
    and e: "extractHookCode ''<hookCode>'' ''</hookCode>'' x = Some x2"
    and d: "\<And>x2a. appendTagContentToReply ''<reply>'' ''</reply>'' [] st = Some x2a
              \<Longrightarrow> processBuffer_dom x2a"
  have "length (bufferRef x) \<le> length (bufferRef st)"
  proof (cases "appendTagContentToReply ''<reply>'' ''</reply>'' [] st")
    case None
    with x show ?thesis by simp
  next
    case (Some st')
    from processBuffer_length [OF d [OF Some]] append_shrinks [OF Some] Some x
    show ?thesis by simp
  qed
  with extract_shrinks [OF e] show "(x2, st) \<in> measure (\<lambda>st. length (bufferRef st))" by simp
qed

declare processBuffer.simps [simp del]

text \<open>\<^verbatim>\<open>text.replace(/<\/?[a-zA-Z]+>/g, '')\<close>.\<close>

definition isAsciiLetter :: "char \<Rightarrow> bool" where
  "isAsciiLetter c =
     (let n = (of_char c :: nat) in (65 \<le> n \<and> n \<le> 90) \<or> (97 \<le> n \<and> n \<le> 122))"

definition optional_lit :: "string \<Rightarrow> (string \<Rightarrow> 'a option) \<Rightarrow> string \<Rightarrow> 'a option" where
  "optional_lit l k s = (case lit l k s of Some r \<Rightarrow> Some r | None \<Rightarrow> k s)"

definition one_of_class :: "(char \<Rightarrow> bool) \<Rightarrow> (string \<Rightarrow> 'a option) \<Rightarrow> string \<Rightarrow> 'a option" where
  "one_of_class P k s = (case s of [] \<Rightarrow> None | c # cs \<Rightarrow> if P c then k cs else None)"

definition markup_here :: "string \<Rightarrow> string option" where
  "markup_here =
     lit ''<'' (optional_lit ''/''
       (one_of_class isAsciiLetter (greedy_class isAsciiLetter (lit ''>'' accept))))"

lemma greedy_class_result: "greedy_class P k s = Some r \<Longrightarrow> \<exists>p t. s = p @ t \<and> k t = Some r"
proof (induction s)
  case Nil
  then show ?case by simp
next
  case (Cons c cs)
  show ?case
  proof (cases "P c \<and> greedy_class P k cs \<noteq> None")
    case True
    with Cons.prems have "greedy_class P k cs = Some r" by auto
    from Cons.IH [OF this] obtain p t where "cs = p @ t" "k t = Some r" by blast
    then have "c # cs = (c # p) @ t \<and> k t = Some r" by simp
    then show ?thesis by blast
  next
    case False
    with Cons.prems have "c # cs = [] @ (c # cs) \<and> k (c # cs) = Some r"
      by (auto split: if_splits option.splits)
    then show ?thesis by blast
  qed
qed

lemma markup_here_shorter:
  assumes "markup_here s = Some rest"
  shows "length rest < length s"
proof -
  let ?k = "one_of_class isAsciiLetter (greedy_class isAsciiLetter (lit ''>'' accept))"
  from assms obtain t1 where 1: "s = ''<'' @ t1" "optional_lit ''/'' ?k t1 = Some rest"
    unfolding markup_here_def by (blast dest: lit_result)
  have "\<exists>t2. length t2 \<le> length t1 \<and> ?k t2 = Some rest"
  proof (cases "lit ''/'' ?k t1")
    case None
    with 1(2) have "?k t1 = Some rest" by (simp add: optional_lit_def)
    then show ?thesis by auto
  next
    case (Some r)
    with 1(2) have "lit ''/'' ?k t1 = Some rest" by (simp add: optional_lit_def)
    from lit_result [OF this] obtain t where "t1 = ''/'' @ t" "?k t = Some rest" by blast
    then have "length t \<le> length t1 \<and> ?k t = Some rest" by simp
    then show ?thesis by blast
  qed
  then obtain t2 where 2: "length t2 \<le> length t1" "?k t2 = Some rest" by blast
  from 2(2) obtain c t3 where 3: "t2 = c # t3"
    "greedy_class isAsciiLetter (lit ''>'' accept) t3 = Some rest"
    by (auto simp: one_of_class_def split: list.splits if_splits)
  from 3(2) obtain p t4 where 4: "t3 = p @ t4" "lit ''>'' accept t4 = Some rest"
    by (blast dest: greedy_class_result)
  from 4(2) have "length rest \<le> length t4"
    by (auto dest!: lit_result simp: accept_def)
  with 1(1) 2(1) 3(1) 4(1) show ?thesis by simp
qed

function stripMarkup :: "string \<Rightarrow> string" where
  "stripMarkup [] = []"
| "stripMarkup (c # cs) =
     (case markup_here (c # cs) of
        Some rest \<Rightarrow> stripMarkup rest
      | None \<Rightarrow> c # stripMarkup cs)"
  by pat_completeness auto
termination
  by (relation "measure length") (auto dest: markup_here_shorter)

text \<open>\<^verbatim>\<open>processTextWithTypingEffect\<close>, and the handling of one event of the stream in
  \<^verbatim>\<open>processStreamEvents\<close>: a data frame (with its text; an object has been serialised
  by \<^verbatim>\<open>JSON.stringify\<close>), an error frame, or the sentinel \<^verbatim>\<open>[DONE]\<close>.\<close>

definition processTextWithTypingEffect :: "string \<Rightarrow> chat_state \<Rightarrow> chat_state" where
  "processTextWithTypingEffect txt st =
     (let st1 = processBuffer (st \<lparr> bufferRef := bufferRef st @ txt \<rparr>);
          cleanedText = stripMarkup txt
      in st1 \<lparr> streamingReply := streamingReply st1 @ cleanedText,
               isTyping := True, isStreamingReply := True \<rparr>)"

datatype stream_chunk = DataChunk string | ErrorChunk string | DoneMarker

fun processChunk :: "stream_chunk \<Rightarrow> chat_state \<Rightarrow> chat_state" where
  "processChunk (DataChunk contentText) st = processTextWithTypingEffect contentText st"
| "processChunk (ErrorChunk content) st = handleStreamError content st"
| "processChunk DoneMarker st = resetStreamingState False st"


section \<open>The page that owns the chat component\<close>

text \<open>
  \<^verbatim>\<open>HookCreationPage\<close> receives the three callbacks. Its state: the React state
  variables and the ref to the \<^verbatim>\<open>JsonStreamHandler\<close>.
\<close>

record page_state =
  jsonData :: hook_data
  streamingHookCode :: hook_data
  isStreamingHookCode :: bool
  streamingComplete :: bool
  isStreaming :: bool
  error :: "string option"
  jsonStreamHandlerRef :: "handler option"

definition getEmptyUniswapHookData :: hook_data where
  "getEmptyUniswapHookData =
     emptyData \<lparr> name := Some [], description := Some [], code := Some [],
       hookType := Some ''custom'', functionalities := Some [], dependencies := Some [],
       complexity := Some ''medium'', version := Some ''1.0.0'' \<rparr>"

text \<open>The state of a freshly mounted page.\<close>

definition initialPage :: page_state where
  "initialPage = \<lparr> jsonData = getEmptyUniswapHookData, streamingHookCode = emptyData,
     isStreamingHookCode = False, streamingComplete = False, isStreaming = False,
     error = None, jsonStreamHandlerRef = None \<rparr>"

text \<open>\<^verbatim>\<open>handleHookCodeData\<close>: content with a complete hook code region is read by the
  page itself, here \<^verbatim>\<open>gasEstimate\<close> is kept only when \<^verbatim>\<open>!isNaN(gasValue)\<close>; any other
  content goes to the handler.\<close>

definition handleHookCodeData :: "string \<Rightarrow> page_state \<Rightarrow> page_state" where
  "handleHookCodeData content p =
     (let hasHookCodeTag =
            (includes_str content ''<hookCode>'' \<and> includes_str content ''</hookCode>'');
          hookCodeMatch =
            (if hasHookCodeTag
             then (case tag_regex ''<hookCode>'' ''</hookCode>'' content of
                     None \<Rightarrow> None
                   | Some (cap, rest) \<Rightarrow> if cap \<noteq> [] then Some cap else None)
             else None)
      in case hookCodeMatch of
           Some cap \<Rightarrow>
             (let parsedData = emptyData \<lparr>
                    code := Some (trim cap),
                    name := tagField ''<name>'' ''</name>'' content,
                    description := tagField ''<description>'' ''</description>'' content,
                    gasEstimate :=
                      (case tag_regex ''<gasEstimate>'' ''</gasEstimate>'' content of
                         None \<Rightarrow> None
                       | Some (g, rest) \<Rightarrow>
                           if g \<noteq> []
                           then (case parseInt (trim g) of
                                   NaN \<Rightarrow> None
                                 | Num n \<Rightarrow> Some (Num n))
                           else None) \<rparr>
              in p \<lparr> streamingHookCode := parsedData, isStreamingHookCode := True,
                     jsonData := spread getEmptyUniswapHookData parsedData \<rparr>)
         | None \<Rightarrow>
             (let h = (case jsonStreamHandlerRef p of Some h \<Rightarrow> h | None \<Rightarrow> newHandler);
                  r = processFragment content h
              in p \<lparr> jsonStreamHandlerRef := Some (snd r), streamingHookCode := fst r,
                     isStreamingHookCode := True \<rparr>))"

text \<open>
  \<^verbatim>\<open>handleStreamingChange\<close>. The function is a closure of one render of the page and
  reads the \<^verbatim>\<open>streamingHookCode\<close> of that render, which need not be the current one:
  \<open>seen\<close> is the value it reads. The ref is read as it is now.
  \<^verbatim>\<open>Object.keys(d).length > 0\<close> holds when some key is present.
\<close>

definition handleStreamingChange :: "hook_data \<Rightarrow> bool \<Rightarrow> page_state \<Rightarrow> page_state" where
  "handleStreamingChange seen b p =
     (let p1 = p \<lparr> isStreaming := b \<rparr>
      in if \<not> b
         then (let p2 = p1 \<lparr> streamingComplete := True \<rparr>
               in case jsonStreamHandlerRef p of
                    Some h \<Rightarrow>
                      if seen \<noteq> emptyData
                      then p2 \<lparr> jsonData := getFinalData h \<rparr> else p2
                  | None \<Rightarrow> p2)
         else p1 \<lparr> streamingComplete := False, streamingHookCode := emptyData \<rparr>)"

definition handleError :: "string \<Rightarrow> page_state \<Rightarrow> page_state" where
  "handleError errorMessage p = p \<lparr> error := Some errorMessage \<rparr>"

fun deliver :: "hook_data \<Rightarrow> page_state \<Rightarrow> parent_call \<Rightarrow> page_state" where
  "deliver seen p (OnStreamingChange b) = handleStreamingChange seen b p"
| "deliver seen p (OnReplyReceived content) = handleHookCodeData content p"
| "deliver seen p (OnError errorMessage) = handleError errorMessage p"

text \<open>
  The effect of the page on \<^verbatim>\<open>isStreaming\<close>, which React runs after a render in which
  \<^verbatim>\<open>isStreaming\<close> has changed: it creates the handler when a stream starts and drops it
  when the stream has stopped.
\<close>

definition streamingEffect :: "page_state \<Rightarrow> page_state" where
  "streamingEffect p =
     (if isStreaming p \<and> jsonStreamHandlerRef p = None
      then p \<lparr> jsonStreamHandlerRef := Some newHandler, streamingComplete := False \<rparr>
      else if \<not> isStreaming p \<and> jsonStreamHandlerRef p \<noteq> None
      then p \<lparr> jsonStreamHandlerRef := None \<rparr>
      else p)"

text \<open>One frame of the stream through both components: the chat component handles the
  frame, and the page handles the callbacks that this made, in order. The effect above
  runs later, after the render, and is not part of \<open>frame\<close>; it writes only
  \<^verbatim>\<open>jsonStreamHandlerRef\<close> and \<^verbatim>\<open>streamingComplete\<close>.\<close>

definition frame ::
  "hook_data \<Rightarrow> stream_chunk \<Rightarrow> chat_state \<times> page_state \<Rightarrow> chat_state \<times> page_state" where
  "frame seen chunk app =
     (let c = processChunk chunk ((fst app) \<lparr> calls := [] \<rparr>)
      in (c, foldl (deliver seen) (snd app) (calls c)))"


section \<open>Properties of the matchers\<close>

text \<open>
  Three properties of a matcher \<open>k\<close>, used to compare a match on a buffer with the match
  on the buffer after more text has arrived. \<open>stable e k\<close>: a match on \<open>s\<close> is also the
  match on \<open>s @ f\<close>, with the result extended by \<open>e f\<close>. \<open>upward k\<close>: when \<open>k\<close> matches
  on a text it matches on every text that ends with it. \<open>persist k\<close>: when \<open>k\<close> matches on
  \<open>s\<close> it matches on \<open>s @ f\<close>, possibly with another result.
\<close>

definition stable :: "(string \<Rightarrow> 'a \<Rightarrow> 'a) \<Rightarrow> (string \<Rightarrow> 'a option) \<Rightarrow> bool" where
  "stable e k \<longleftrightarrow> (\<forall>s r f. k s = Some r \<longrightarrow> k (s @ f) = Some (e f r))"

definition upward :: "(string \<Rightarrow> 'a option) \<Rightarrow> bool" where
  "upward k \<longleftrightarrow> (\<forall>s c. k s \<noteq> None \<longrightarrow> k (c # s) \<noteq> None)"

definition persist :: "(string \<Rightarrow> 'a option) \<Rightarrow> bool" where
  "persist k \<longleftrightarrow> (\<forall>s f. k s \<noteq> None \<longrightarrow> k (s @ f) \<noteq> None)"

lemma stable_accept: "stable (\<lambda>f r. r @ f) accept"
  by (simp add: stable_def accept_def)

lemma upward_accept: "upward accept"
  by (simp add: upward_def accept_def)

lemma stable_lit: "stable e k \<Longrightarrow> stable e (lit l k)"
  by (auto simp: stable_def lit_def split: if_splits dest: prefix_length_le)

lemma upward_append: "upward k \<Longrightarrow> k s \<noteq> None \<Longrightarrow> k (p @ s) \<noteq> None"
  by (induction p) (auto simp: upward_def)

lemma upward_scan: "upward (scan K)"
  by (auto simp: upward_def split: option.splits)

lemma upward_capture_lazy: "upward (capture_lazy K)"
  by (auto simp: upward_def split: option.splits)

lemma scan_here: "K s = Some r \<Longrightarrow> scan K s = Some r"
  by (cases s) auto

lemma capture_lazy_here: "K s = Some r \<Longrightarrow> capture_lazy K s = Some ([], r)"
  by (cases s) auto

lemma scan_None: "scan K s = None \<Longrightarrow> K s = None"
  by (cases s) (auto split: option.splits)

lemma capture_lazy_None: "capture_lazy K s = None \<Longrightarrow> K s = None"
  by (cases s) (auto split: option.splits)

text \<open>A literal that fails here while the rest of the expression matches further right
  keeps failing when text is appended.\<close>

lemma lit_blocked:
  assumes up: "upward k" and here: "lit l k (c # cs) = None"
    and later: "cs = p @ t" "lit l k t \<noteq> None"
  shows "lit l k ((c # cs) @ f) = None"
proof (rule ccontr)
  assume "lit l k ((c # cs) @ f) \<noteq> None"
  then have pf: "prefix l ((c # cs) @ f)" by (auto simp: lit_def split: if_splits)
  from later(2) obtain t' where t: "t = l @ t'" "k t' \<noteq> None"
    by (auto simp: lit_def prefix_def split: if_splits)
  with later(1) have len: "length l \<le> length (c # cs)" by simp
  have "prefix (c # cs) ((c # cs) @ f)" by simp
  from prefix_length_prefix [OF pf this len] have pl: "prefix l (c # cs)" .
  then obtain x where x: "c # cs = l @ x" by (auto simp: prefix_def)
  with later(1) t(1) have eq: "l @ x = ((c # p) @ l) @ t'" by simp
  have "x = drop (length l) (l @ x)" by simp
  also have "\<dots> = drop (length l) (((c # p) @ l) @ t')" by (simp only: eq)
  also have "\<dots> = drop (length l) ((c # p) @ l) @ t'"
  proof -
    have "\<And>n (xs :: string) ys. n \<le> length xs \<Longrightarrow> drop n (xs @ ys) = drop n xs @ ys"
      by simp
    from this [of "length l" "(c # p) @ l" t'] show ?thesis by simp
  qed
  finally have "\<exists>q. x = q @ t'" by blast
  then obtain q where "x = q @ t'" by blast
  with upward_append [OF up t(2)] have "k x \<noteq> None" by simp
  with x pl have "lit l k (c # cs) \<noteq> None" by (simp add: lit_def)
  with here show False by simp
qed


lemma stableD: "stable e k \<Longrightarrow> k s = Some r \<Longrightarrow> k (s @ f) = Some (e f r)"
  by (simp add: stable_def)

lemma stable_scan_lit:
  assumes st: "stable e k" and up: "upward k"
  shows "stable e (scan (lit l k))"
  unfolding stable_def
proof (intro allI impI)
  fix s r f
  assume "scan (lit l k) s = Some r"
  then show "scan (lit l k) (s @ f) = Some (e f r)"
  proof (induction s)
    case Nil
    then have "lit l k [] = Some r" by simp
    from stableD [OF stable_lit [OF st] this, of f] show ?case by (simp add: scan_here)
  next
    case (Cons c cs)
    show ?case
    proof (cases "lit l k (c # cs)")
      case (Some a)
      with Cons.prems have "lit l k (c # cs) = Some r" by simp
      from stableD [OF stable_lit [OF st] this, of f] show ?thesis by simp
    next
      case None
      with Cons.prems have later: "scan (lit l k) cs = Some r" by simp
      from scan_result [OF later] obtain p t where pt: "cs = p @ t" "lit l k t = Some r" by blast
      then have "lit l k t \<noteq> None" by simp
      from lit_blocked [OF up None pt(1) this] have "lit l k ((c # cs) @ f) = None" .
      with Cons.IH [OF later] show ?thesis by simp
    qed
  qed
qed

lemma stable_capture_lit:
  assumes st: "stable e k" and up: "upward k"
  shows "stable (\<lambda>f cr. (fst cr, e f (snd cr))) (capture_lazy (lit l k))"
  unfolding stable_def
proof (intro allI impI)
  fix s r f
  assume "capture_lazy (lit l k) s = Some r"
  then show "capture_lazy (lit l k) (s @ f) = Some (fst r, e f (snd r))"
  proof (induction s arbitrary: r)
    case Nil
    then obtain r' where r': "lit l k [] = Some r'" "r = ([], r')" by auto
    from stableD [OF stable_lit [OF st] r'(1), of f] r'(2) show ?case
      by (simp add: capture_lazy_here)
  next
    case (Cons c cs)
    show ?case
    proof (cases "lit l k (c # cs)")
      case (Some a)
      with Cons.prems have r: "r = ([], a)" by simp
      from stableD [OF stable_lit [OF st] Some, of f] r show ?thesis by simp
    next
      case None
      with Cons.prems obtain r' where later: "capture_lazy (lit l k) cs = Some r'"
        and r: "r = (c # fst r', snd r')" by (cases "capture_lazy (lit l k) cs") auto
      from later have "capture_lazy (lit l k) cs = Some (fst r', snd r')" by simp
      from capture_lazy_result [OF this] obtain t where pt: "cs = fst r' @ t" "lit l k t = Some (snd r')"
        by blast
      then have "lit l k t \<noteq> None" by simp
      from lit_blocked [OF up None pt(1) this] have "lit l k ((c # cs) @ f) = None" .
      with Cons.IH [OF later] r show ?thesis by simp
    qed
  qed
qed

lemma stable_tag_regex:
  "tag_regex opn cls s = Some (cap, rest) \<Longrightarrow> tag_regex opn cls (s @ f) = Some (cap, rest @ f)"
proof -
  have 1: "stable (\<lambda>f cr. (fst cr, snd cr @ f)) (capture_lazy (lit cls accept))"
    by (rule stable_capture_lit [OF stable_accept upward_accept])
  have "stable (\<lambda>f cr. (fst cr, snd cr @ f)) (scan (lit opn (capture_lazy (lit cls accept))))"
    by (rule stable_scan_lit [OF 1 upward_capture_lazy])
  then show "tag_regex opn cls s = Some (cap, rest) \<Longrightarrow> tag_regex opn cls (s @ f) = Some (cap, rest @ f)"
    unfolding tag_regex_def tag_here_def stable_def by fastforce
qed

lemma stable_feature_regex:
  "feature_regex s = Some (cap, rest) \<Longrightarrow> feature_regex (s @ f) = Some (cap, rest @ f)"
proof -
  have 1: "stable (\<lambda>f r. r @ f) (scan (lit ''</feature>'' accept))"
    by (rule stable_scan_lit [OF stable_accept upward_accept])
  have 2: "stable (\<lambda>f cr. (fst cr, snd cr @ f))
             (capture_lazy (lit ''</name>'' (scan (lit ''</feature>'' accept))))"
    by (rule stable_capture_lit [OF 1 upward_scan])
  have 3: "stable (\<lambda>f cr. (fst cr, snd cr @ f))
             (scan (lit ''<name>'' (capture_lazy (lit ''</name>'' (scan (lit ''</feature>'' accept))))))"
    by (rule stable_scan_lit [OF 2 upward_capture_lazy])
  have "stable (\<lambda>f cr. (fst cr, snd cr @ f)) feature_regex"
    unfolding feature_regex_def by (rule stable_scan_lit [OF 3 upward_scan])
  then show "feature_regex s = Some (cap, rest) \<Longrightarrow> feature_regex (s @ f) = Some (cap, rest @ f)"
    unfolding stable_def by fastforce
qed

lemma includes_str_sublist: "includes_str s pat \<longleftrightarrow> sublist pat s"
proof (induction s)
  case Nil
  then show ?case by (simp add: includes_str_def)
next
  case (Cons c cs)
  then show ?case by (auto simp: includes_str_def sublist_Cons_right)
qed

lemma includes_str_append: "includes_str p pat \<Longrightarrow> includes_str (p @ q) pat"
proof -
  assume "includes_str p pat"
  then obtain a b where "p = a @ pat @ b" by (auto simp: includes_str_sublist sublist_def)
  then have "p @ q = a @ pat @ (b @ q)" by simp
  then show ?thesis unfolding includes_str_sublist sublist_def by blast
qed

lemma tag_regex_includes:
  "tag_regex opn cls s = Some r \<Longrightarrow> includes_str s cls"
proof -
  assume "tag_regex opn cls s = Some r"
  then have "tag_regex opn cls s = Some (fst r, snd r)" by simp
  from tag_regex_result [OF this] obtain p where "s = p @ opn @ fst r @ cls @ snd r" by blast
  then have "s = (p @ opn @ fst r) @ cls @ snd r" by simp
  then show ?thesis unfolding includes_str_sublist sublist_def by blast
qed

lemma tagField_None: "\<not> includes_str s cls \<Longrightarrow> tagField opn cls s = None"
  by (auto simp: tagField_def split: option.splits dest: tag_regex_includes)

lemma gasField_None: "\<not> includes_str s ''</gasEstimate>'' \<Longrightarrow> gasField s = None"
  by (auto simp: gasField_def split: option.splits dest: tag_regex_includes)

text \<open>A field that is set keeps its value when text is appended.\<close>

lemma tagField_append:
  assumes "tagField opn cls s = Some v"
  shows "tagField opn cls (s @ f) = Some v"
proof -
  from assms obtain cap rest where m: "tag_regex opn cls s = Some (cap, rest)"
    and v: "cap \<noteq> []" "v = trim cap"
    by (auto simp: tagField_def split: option.splits if_splits)
  from stable_tag_regex [OF m, of f] v show ?thesis by (simp add: tagField_def)
qed

lemma gasField_append:
  assumes "gasField s = Some v"
  shows "gasField (s @ f) = Some v"
proof -
  from assms obtain cap rest
    where m: "tag_regex ''<gasEstimate>'' ''</gasEstimate>'' s = Some (cap, rest)"
    and v: "cap \<noteq> []" "v = parseInt (trim cap)"
    by (auto simp: gasField_def split: option.splits if_splits)
  from stable_tag_regex [OF m, of f] v show ?thesis by (simp add: gasField_def)
qed

text \<open>Matchers whose success survives appended text.\<close>

lemma persist_accept: "persist accept"
  by (simp add: persist_def accept_def)

lemma persist_lit: "persist k \<Longrightarrow> persist (lit l k)"
  by (auto simp: persist_def lit_def split: if_splits dest: prefix_length_le)

lemma persist_scan: "persist K \<Longrightarrow> persist (scan K)"
proof -
  assume p: "persist K"
  have "scan K s \<noteq> None \<Longrightarrow> scan K (s @ f) \<noteq> None" for s f
  proof (induction s)
    case Nil
    then have "K [] \<noteq> None" by simp
    then have "K ([] @ f) \<noteq> None" using p unfolding persist_def by blast
    then have "K f \<noteq> None" by simp
    with scan_None [of K f] show ?case by auto
  next
    case (Cons c cs)
    show ?case
    proof (cases "K (c # cs)")
      case None
      with Cons show ?thesis by (auto split: option.splits)
    next
      case (Some a)
      then have "K ((c # cs) @ f) \<noteq> None" using p unfolding persist_def by blast
      then show ?thesis by (auto split: option.splits)
    qed
  qed
  then show ?thesis by (simp add: persist_def)
qed

lemma greedy_class_here: "k s \<noteq> None \<Longrightarrow> greedy_class P k s \<noteq> None"
  by (cases s) (auto split: option.splits)

lemma persist_greedy_class: "persist k \<Longrightarrow> persist (greedy_class P k)"
proof -
  assume p: "persist k"
  have "greedy_class P k s \<noteq> None \<Longrightarrow> greedy_class P k (s @ f) \<noteq> None" for s f
  proof (induction s)
    case Nil
    then have "k [] \<noteq> None" by simp
    then have "k ([] @ f) \<noteq> None" using p unfolding persist_def by blast
    then show ?case by (simp add: greedy_class_here)
  next
    case (Cons c cs)
    show ?case
    proof (cases "P c \<and> greedy_class P k cs \<noteq> None")
      case True
      with Cons.IH show ?thesis by (auto split: option.splits)
    next
      case False
      with Cons.prems have "k (c # cs) \<noteq> None" by (auto split: if_splits option.splits)
      then have "k ((c # cs) @ f) \<noteq> None" using p unfolding persist_def by blast
      then show ?thesis by (auto split: option.splits)
    qed
  qed
  then show ?thesis by (simp add: persist_def)
qed

lemma persist_capture_alt: "persist k \<Longrightarrow> persist (capture_alt ws k)"
proof -
  assume p: "persist k"
  have "capture_alt ws k s \<noteq> None \<Longrightarrow> capture_alt ws k (s @ f) \<noteq> None" for s f
  proof (induction ws)
    case Nil
    then show ?case by simp
  next
    case (Cons w ws)
    show ?case
    proof (cases "lit w k s")
      case None
      with Cons show ?thesis by (auto split: option.splits)
    next
      case (Some a)
      then have "lit w k (s @ f) \<noteq> None" using persist_lit [OF p, of w] unfolding persist_def by blast
      then show ?thesis by (auto split: option.splits)
    qed
  qed
  then show ?thesis by (simp add: persist_def)
qed

lemma capture_alt_result: "capture_alt ws k s = Some (w, r) \<Longrightarrow> w \<in> set ws"
  by (induction ws) (auto split: option.splits)

lemma complexity_regex_result:
  assumes "complexity_regex s = Some (cap, rest)"
  shows "cap \<in> {''low'', ''medium'', ''high''}"
proof -
  let ?k = "capture_alt [''low'', ''medium'', ''high''] accept"
  let ?P = "\<lambda>c. c = CHR '':'' \<or> isWhiteSpace c"
  from assms obtain t where "lit ''complexity'' (greedy_class ?P ?k) t = Some (cap, rest)"
    unfolding complexity_regex_def by (blast dest: scan_result)
  then obtain t2 where "greedy_class ?P ?k t2 = Some (cap, rest)" by (blast dest: lit_result)
  then obtain t3 where "?k t3 = Some (cap, rest)" by (blast dest: greedy_class_result)
  from capture_alt_result [OF this] show ?thesis by simp
qed

lemma complexityField_append:
  assumes "complexityField s \<noteq> None"
  shows "complexityField (s @ f) \<noteq> None"
proof -
  have "persist complexity_regex"
    unfolding complexity_regex_def
    by (intro persist_scan persist_lit persist_greedy_class persist_capture_alt persist_accept)
  moreover from assms have "complexity_regex (toLowerCase s) \<noteq> None"
    by (auto simp: complexityField_def split: option.splits)
  ultimately have "complexity_regex (toLowerCase s @ toLowerCase f) \<noteq> None"
    unfolding persist_def by blast
  then obtain cap rest where m: "complexity_regex (toLowerCase (s @ f)) = Some (cap, rest)"
    by (auto simp: toLowerCase_def)
  from complexity_regex_result [OF m] have "cap \<noteq> []" by auto
  with m show ?thesis by (simp add: complexityField_def)
qed

text \<open>The matches of a global loop on a text are the first matches of the loop on any
  extension of the text.\<close>

lemma exampleMatches_append: "\<exists>ys. exampleMatches (s @ f) = exampleMatches s @ ys"
proof (induction s rule: exampleMatches.induct)
  case (1 s)
  show ?case
  proof (cases "tag_regex ''<example>'' ''</example>'' s")
    case None
    then have "exampleMatches s = []" by (subst exampleMatches.simps) simp
    then show ?thesis by simp
  next
    case (Some r)
    obtain cap rest where r: "r = (cap, rest)" by (cases r)
    from Some r have m: "tag_regex ''<example>'' ''</example>'' s = Some (cap, rest)" by simp
    from "1.IH" [OF Some r [symmetric]] obtain ys
      where ys: "exampleMatches (rest @ f) = exampleMatches rest @ ys" by blast
    have "exampleMatches (s @ f) = cap # exampleMatches (rest @ f)"
      using stable_tag_regex [OF m, of f] by (subst exampleMatches.simps) simp
    also have "\<dots> = (cap # exampleMatches rest) @ ys" using ys by simp
    also have "cap # exampleMatches rest = exampleMatches s"
      using m by (subst (2) exampleMatches.simps) simp
    finally show ?thesis by blast
  qed
qed

lemma featureMatches_append: "\<exists>ys. featureMatches (s @ f) = featureMatches s @ ys"
proof (induction s rule: featureMatches.induct)
  case (1 s)
  show ?case
  proof (cases "feature_regex s")
    case None
    then have "featureMatches s = []" by (subst featureMatches.simps) simp
    then show ?thesis by simp
  next
    case (Some r)
    obtain cap rest where r: "r = (cap, rest)" by (cases r)
    from Some r have m: "feature_regex s = Some (cap, rest)" by simp
    from "1.IH" [OF Some r [symmetric]] obtain ys
      where ys: "featureMatches (rest @ f) = featureMatches rest @ ys" by blast
    have "featureMatches (s @ f) = cap # featureMatches (rest @ f)"
      using stable_feature_regex [OF m, of f] by (subst featureMatches.simps) simp
    also have "\<dots> = (cap # featureMatches rest) @ ys" using ys by simp
    also have "cap # featureMatches rest = featureMatches s"
      using m by (subst (2) featureMatches.simps) simp
    finally show ?thesis by blast
  qed
qed

lemma listField_append: "listField xs \<noteq> None \<Longrightarrow> listField (xs @ ys) \<noteq> None"
  by (auto simp: listField_def Let_def split: if_splits)

lemma phraseField_append: "phraseField s \<noteq> None \<Longrightarrow> phraseField (s @ f) \<noteq> None"
proof -
  assume "phraseField s \<noteq> None"
  then obtain t where "t \<in> set hookTypes" "includes_str (toLowerCase s) t"
    by (auto simp: phraseField_def find_None_iff)
  then have "t \<in> set hookTypes" "includes_str (toLowerCase (s @ f)) t"
    by (auto simp: toLowerCase_def dest: includes_str_append)
  then show ?thesis by (auto simp: phraseField_def find_None_iff)
qed


section \<open>The handler over a session\<close>

text \<open>\<^verbatim>\<open>extractTagsFromContent\<close> field by field.\<close>

definition foundStructured :: "string \<Rightarrow> bool" where
  "foundStructured s =
     (tagField ''<name>'' ''</name>'' s \<noteq> None
      \<or> tagField ''<description>'' ''</description>'' s \<noteq> None
      \<or> tagField ''<hookCode>'' ''</hookCode>'' s \<noteq> None
      \<or> gasField s \<noteq> None
      \<or> complexityField s \<noteq> None
      \<or> listField (featureMatches s) \<noteq> None
      \<or> tagField ''<testCode>'' ''</testCode>'' s \<noteq> None
      \<or> listField (exampleMatches s) \<noteq> None
      \<or> phraseField s \<noteq> None)"

definition hookDataOf :: "string \<Rightarrow> hook_data" where
  "hookDataOf s =
     \<lparr> name = tagField ''<name>'' ''</name>'' s,
       description = tagField ''<description>'' ''</description>'' s,
       code = tagField ''<hookCode>'' ''</hookCode>'' s,
       gasEstimate = gasField s,
       complexity = complexityField s,
       functionalities = listField (featureMatches s),
       testCode = tagField ''<testCode>'' ''</testCode>'' s,
       examples = listField (exampleMatches s),
       hookType = (case phraseField s of Some t \<Rightarrow> Some t
                   | None \<Rightarrow> if foundStructured s then Some ''custom'' else None),
       dependencies = None, version = None,
       u_replyContent = tagField ''<reply>'' ''</reply>'' s,
       u_rawContent = None \<rparr>"

lemma extract_eq:
  "extractTagsFromContent s =
     (if foundStructured s \<or> tagField ''<reply>'' ''</reply>'' s \<noteq> None
      then Some (hookDataOf s) else None)"
  unfolding extractTagsFromContent_def foundStructured_def hookDataOf_def Let_def
  by simp

text \<open>What the handler holds after some fragments is what one extraction from the whole
  buffer gives.\<close>

definition known :: "string \<Rightarrow> hook_data" where
  "known s = (case extractTagsFromContent s of Some d \<Rightarrow> d | None \<Rightarrow> emptyData)"

lemma tagField_persists: "tagField opn cls s \<noteq> None \<Longrightarrow> tagField opn cls (s @ f) \<noteq> None"
  by (cases "tagField opn cls s") (auto dest: tagField_append [where f = f])

lemma gasField_persists: "gasField s \<noteq> None \<Longrightarrow> gasField (s @ f) \<noteq> None"
  by (cases "gasField s") (auto dest: gasField_append [where f = f])

lemma examplesField_persists:
  assumes "listField (exampleMatches s) \<noteq> None"
  shows "listField (exampleMatches (s @ f)) \<noteq> None"
proof -
  from exampleMatches_append [of s f] obtain ys
    where "exampleMatches (s @ f) = exampleMatches s @ ys" by blast
  with listField_append [OF assms, of ys] show ?thesis by simp
qed

lemma functionalitiesField_persists:
  assumes "listField (featureMatches s) \<noteq> None"
  shows "listField (featureMatches (s @ f)) \<noteq> None"
proof -
  from featureMatches_append [of s f] obtain ys
    where "featureMatches (s @ f) = featureMatches s @ ys" by blast
  with listField_append [OF assms, of ys] show ?thesis by simp
qed

lemma foundStructured_append:
  assumes "foundStructured s"
  shows "foundStructured (s @ f)"
proof -
  note p = tagField_persists [of _ _ s f] gasField_persists [of s f]
    complexityField_append [of s f] examplesField_persists [of s f]
    functionalitiesField_persists [of s f] phraseField_append [of s f]
  from assms consider
      "tagField ''<name>'' ''</name>'' s \<noteq> None"
    | "tagField ''<description>'' ''</description>'' s \<noteq> None"
    | "tagField ''<hookCode>'' ''</hookCode>'' s \<noteq> None"
    | "gasField s \<noteq> None"
    | "complexityField s \<noteq> None"
    | "listField (featureMatches s) \<noteq> None"
    | "tagField ''<testCode>'' ''</testCode>'' s \<noteq> None"
    | "listField (exampleMatches s) \<noteq> None"
    | "phraseField s \<noteq> None"
    unfolding foundStructured_def by blast
  then show ?thesis
  proof cases
    case 1 from p(1) [OF this] show ?thesis by (simp add: foundStructured_def)
  next
    case 2 from p(1) [OF this] show ?thesis by (simp add: foundStructured_def)
  next
    case 3 from p(1) [OF this] show ?thesis by (simp add: foundStructured_def)
  next
    case 4 from p(2) [OF this] show ?thesis by (simp add: foundStructured_def)
  next
    case 5 from p(3) [OF this] show ?thesis by (simp add: foundStructured_def)
  next
    case 6 from p(5) [OF this] show ?thesis by (simp add: foundStructured_def)
  next
    case 7 from p(1) [OF this] show ?thesis by (simp add: foundStructured_def)
  next
    case 8 from p(4) [OF this] show ?thesis by (simp add: foundStructured_def)
  next
    case 9 from p(6) [OF this] show ?thesis by (simp add: foundStructured_def)
  qed
qed

lemma override_None [simp]: "override None x = x"
  by (simp add: override_def split: option.splits)

lemma override_same: "(x = None \<Longrightarrow> old = None) \<Longrightarrow> override old x = x"
  by (cases x) (simp_all add: override_def)

lemma known_empty: "known [] = emptyData"
  by (simp add: known_def exampleMatches.simps featureMatches.simps extract_eq foundStructured_def tagField_def gasField_def
      complexityField_def listField_def phraseField_def hookTypes_def tag_regex_def tag_here_def
      lit_def accept_def complexity_regex_def feature_regex_def toLowerCase_def includes_str_def)

lemma hookType_hookDataOf_append:
  "hookType (hookDataOf s) \<noteq> None \<Longrightarrow> hookType (hookDataOf (s @ f)) \<noteq> None"
  using foundStructured_append [of s f] phraseField_append [of s f]
  by (auto simp: hookDataOf_def split: option.splits if_splits)

text \<open>Every key that an extraction from a text sets is set by an extraction from a longer
  text, so the spread of the later result over the earlier one is the later result.\<close>

lemma spread_hookDataOf: "spread (hookDataOf s) (hookDataOf (s @ f)) = hookDataOf (s @ f)"
proof -
  have t: "override (tagField opn cls s) (tagField opn cls (s @ f)) = tagField opn cls (s @ f)"
    for opn cls
    using tagField_persists [of opn cls s f] by (intro override_same) blast
  have g: "override (gasField s) (gasField (s @ f)) = gasField (s @ f)"
    using gasField_persists [of s f] by (intro override_same) blast
  have c: "override (complexityField s) (complexityField (s @ f)) = complexityField (s @ f)"
    using complexityField_append [of s f] by (intro override_same) blast
  have fs: "override (listField (featureMatches s)) (listField (featureMatches (s @ f)))
              = listField (featureMatches (s @ f))"
    using functionalitiesField_persists [of s f] by (intro override_same) blast
  have ex: "override (listField (exampleMatches s)) (listField (exampleMatches (s @ f)))
              = listField (exampleMatches (s @ f))"
    using examplesField_persists [of s f] by (intro override_same) blast
  have h: "override (hookType (hookDataOf s)) (hookType (hookDataOf (s @ f)))
              = hookType (hookDataOf (s @ f))"
    using hookType_hookDataOf_append [of s f] by (intro override_same) blast
  have "spread (hookDataOf s) (hookDataOf (s @ f)) =
          hookDataOf (s @ f) \<lparr> hookType := override (hookType (hookDataOf s)) (hookType (hookDataOf (s @ f))) \<rparr>"
    by (simp add: spread_def hookDataOf_def t g c fs ex)
  with h show ?thesis by simp
qed

lemma spread_emptyData [simp]: "spread emptyData d = d"
  by (simp add: spread_def emptyData_def)

lemma extract_persists:
  "extractTagsFromContent s \<noteq> None \<Longrightarrow> extractTagsFromContent (s @ f) \<noteq> None"
  using foundStructured_append [of s f] tagField_persists [of "''<reply>''" "''</reply>''" s f]
  by (auto simp: extract_eq split: if_splits)

lemma known_step:
  "(case extractTagsFromContent (s @ f) of
      Some hookData \<Rightarrow> spread (known s) hookData
    | None \<Rightarrow> known s) = known (s @ f)"
proof (cases "extractTagsFromContent (s @ f)")
  case None
  have "extractTagsFromContent s = None"
  proof (rule ccontr)
    assume "extractTagsFromContent s \<noteq> None"
    from extract_persists [OF this, of f] None show False by simp
  qed
  with None show ?thesis by (simp add: known_def)
next
  case (Some d)
  then have d: "d = hookDataOf (s @ f)" by (simp add: extract_eq split: if_splits)
  show ?thesis
  proof (cases "extractTagsFromContent s")
    case None
    with Some show ?thesis by (simp add: known_def)
  next
    case (Some d0)
    then have "d0 = hookDataOf s" by (simp add: extract_eq split: if_splits)
    with Some \<open>extractTagsFromContent (s @ f) = Some d\<close> d spread_hookDataOf [of s f]
    show ?thesis by (simp add: known_def)
  qed
qed

definition settled :: "handler \<Rightarrow> bool" where
  "settled h \<longleftrightarrow> lastParsedData h = known (rawContent h)"

lemma settled_new: "settled newHandler"
  by (simp add: settled_def newHandler_def known_empty)

lemma settled_processFragment:
  assumes "settled h"
  shows "settled (snd (processFragment f h))"
proof -
  have "lastParsedData (snd (processFragment f h)) =
          (case extractTagsFromContent (rawContent h @ f) of
             Some hookData \<Rightarrow> spread (lastParsedData h) hookData
           | None \<Rightarrow> lastParsedData h)"
    by (simp add: processFragment_def Let_def)
  also have "\<dots> = known (rawContent h @ f)"
    unfolding assms [unfolded settled_def] by (rule known_step)
  finally show ?thesis by (simp add: settled_def processFragment_def Let_def)
qed

lemma settled_feed: "settled h \<Longrightarrow> settled (feed h fs)"
  unfolding feed_def by (induction fs arbitrary: h) (simp_all add: settled_processFragment)

lemma rawContent_processFragment [simp]:
  "rawContent (snd (processFragment f h)) = rawContent h @ f"
  by (simp add: processFragment_def Let_def)

lemma rawContent_feed: "rawContent (feed h fs) = rawContent h @ concat fs"
  unfolding feed_def by (induction fs arbitrary: h) simp_all

lemma lastParsedData_feed: "lastParsedData (feed newHandler fs) = known (concat fs)"
  using settled_feed [OF settled_new, of fs]
  by (simp add: settled_def rawContent_feed newHandler_def)


section \<open>What a session leaves in the record\<close>

lemma u_rawContent_known: "u_rawContent (known s) = None"
  by (simp add: known_def extract_eq hookDataOf_def emptyData_def)

lemma getFinalData_feed:
  "getFinalData (feed newHandler fs) =
     (let d = known (concat fs)
      in if truthy (u_replyContent d) then d \<lparr> u_replyContent := None \<rparr> else d)"
  by (simp add: getFinalData_def lastParsedData_feed Let_def truthy_def u_rawContent_known)

lemma name_known: "name (known s) = tagField ''<name>'' ''</name>'' s"
  by (simp add: known_def extract_eq hookDataOf_def emptyData_def foundStructured_def)

lemma description_known:
  "description (known s) = tagField ''<description>'' ''</description>'' s"
  by (simp add: known_def extract_eq hookDataOf_def emptyData_def foundStructured_def)

lemma code_known: "code (known s) = tagField ''<hookCode>'' ''</hookCode>'' s"
  by (simp add: known_def extract_eq hookDataOf_def emptyData_def foundStructured_def)

lemma testCode_known: "testCode (known s) = tagField ''<testCode>'' ''</testCode>'' s"
  by (simp add: known_def extract_eq hookDataOf_def emptyData_def foundStructured_def)

lemma gasEstimate_known: "gasEstimate (known s) = gasField s"
  by (simp add: known_def extract_eq hookDataOf_def emptyData_def foundStructured_def)

lemma examples_known: "examples (known s) = listField (exampleMatches s)"
  by (simp add: known_def extract_eq hookDataOf_def emptyData_def foundStructured_def)

lemma functionalities_known: "functionalities (known s) = listField (featureMatches s)"
  by (simp add: known_def extract_eq hookDataOf_def emptyData_def foundStructured_def)

lemma getFinalData_fields:
  "name (getFinalData (feed newHandler fs)) = name (known (concat fs))"
  "description (getFinalData (feed newHandler fs)) = description (known (concat fs))"
  "code (getFinalData (feed newHandler fs)) = code (known (concat fs))"
  "testCode (getFinalData (feed newHandler fs)) = testCode (known (concat fs))"
  "gasEstimate (getFinalData (feed newHandler fs)) = gasEstimate (known (concat fs))"
  "examples (getFinalData (feed newHandler fs)) = examples (known (concat fs))"
  "functionalities (getFinalData (feed newHandler fs)) = functionalities (known (concat fs))"
  "hookType (getFinalData (feed newHandler fs)) = hookType (known (concat fs))"
  by (simp_all add: getFinalData_feed Let_def)


section \<open>The claims\<close>

text \<open>
  C2. For every payload and every way of cutting it into fragments, feeding the
  fragments one at a time to a fresh \<^verbatim>\<open>JsonStreamHandler\<close> and calling
  \<^verbatim>\<open>getFinalData\<close> gives the same record as feeding the whole payload as one fragment.
  Every extraction reads the whole accumulated buffer, and each key set by an earlier
  extraction is set again by the last one, so the last spread decides every key.
\<close>

theorem split_boundary_invariance:
  "getFinalData (feed newHandler fragments) = getFinalData (feed newHandler [concat fragments])"
  by (simp add: getFinalData_feed)

text \<open>
  C1, as stated, fails: after \<^verbatim>\<open><name>A</name>\<close> and then \<^verbatim>\<open><name>B</name>\<close> the
  name is \<open>A\<close>. The buffer keeps the first region, and the expression matches it again
  on every pass.
\<close>

theorem name_last_write_counterexample:
  "name (getFinalData (feed newHandler [''<name>A</name>'', ''<name>B</name>''])) = Some ''A''
   \<and> name (getFinalData (feed newHandler [''<name>A</name>'', ''<name>B</name>''])) \<noteq> Some ''B''"
  by (simp add: getFinalData_fields name_known tagField_def tag_regex_def tag_here_def
      lit_def accept_def trim_def isWhiteSpace_def)

text \<open>
  C1, amended: the first completed region wins. Once the name is set, no later fragment
  changes it.
\<close>

theorem name_first_region_wins:
  assumes "name (getFinalData (feed newHandler fs)) = Some v"
  shows "name (getFinalData (feed newHandler (fs @ gs))) = Some v"
  using assms tagField_append [of "''<name>''" "''</name>''" "concat fs" v "concat gs"]
  by (simp add: getFinalData_fields name_known)

theorem name_first_region_wins_witness:
  "name (getFinalData (feed newHandler [''<name>A</name>''])) = Some ''A''
   \<and> name (getFinalData (feed newHandler ([''<name>A</name>''] @ [''<name>B</name>'']))) = Some ''A''"
proof -
  have h: "name (getFinalData (feed newHandler [''<name>A</name>''])) = Some ''A''"
    by (simp add: getFinalData_fields name_known tagField_def tag_regex_def tag_here_def
      lit_def accept_def trim_def isWhiteSpace_def)
  from name_first_region_wins [OF h, of "[''<name>B</name>'']"] h show ?thesis by simp
qed

text \<open>
  C5, as stated, fails: the buffer still holds the first block when the second arrives,
  and the scan of the whole buffer finds five regions.
\<close>

theorem examples_rebuild_counterexample:
  "examples (getFinalData (feed newHandler
     [''<examples><example>a</example><example>b</example></examples>'',
      ''<examples><example>a</example><example>b</example><example>c</example></examples>'']))
   = Some [''a'', ''b'', ''a'', ''b'', ''c'']"
  by (simp add: getFinalData_fields examples_known listField_def exampleMatches.simps
      tag_regex_def tag_here_def lit_def accept_def trim_def isWhiteSpace_def)

text \<open>
  C5, amended: the list fields are rebuilt, not appended to. After any fragments,
  \<^verbatim>\<open>examples\<close> is the list that one scan of the whole accumulated buffer gives, one entry
  for each example region with non-empty content, in order; and likewise
  \<^verbatim>\<open>functionalities\<close>.
\<close>

theorem list_fields_rebuilt:
  "examples (getFinalData (feed newHandler fs)) = listField (exampleMatches (concat fs))
   \<and> functionalities (getFinalData (feed newHandler fs)) = listField (featureMatches (concat fs))"
  by (simp add: getFinalData_fields examples_known functionalities_known)

text \<open>A field needs its closing tag: when the accumulated buffer of a session holds no
  closing tag of a field, no pass on it or on an earlier, shorter buffer matched, and the
  final record does not have the field.\<close>

lemma closing_tag_needed:
  "(\<not> includes_str (concat fs) ''</description>''
      \<longrightarrow> description (getFinalData (feed newHandler fs)) = None)
   \<and> (\<not> includes_str (concat fs) ''</name>''
      \<longrightarrow> name (getFinalData (feed newHandler fs)) = None)
   \<and> (\<not> includes_str (concat fs) ''</hookCode>''
      \<longrightarrow> code (getFinalData (feed newHandler fs)) = None)
   \<and> (\<not> includes_str (concat fs) ''</testCode>''
      \<longrightarrow> testCode (getFinalData (feed newHandler fs)) = None)
   \<and> (\<not> includes_str (concat fs) ''</gasEstimate>''
      \<longrightarrow> gasEstimate (getFinalData (feed newHandler fs)) = None)"
  by (simp add: getFinalData_fields name_known description_known code_known testCode_known
      gasEstimate_known tagField_None gasField_None)

text \<open>
  A closing tag in a buffer that ends with an opening tag and text without a closing tag
  lies before that opening tag: it cannot start in the text after it, and it cannot
  overlap the opening tag, since neither tag repeats its first character and the two
  differ within their first two characters.
\<close>

lemma closing_tag_before_open:
  assumes eq: "pre @ opn @ partial = q @ cls @ rest"
    and part: "\<not> sublist cls partial"
    and co: "hd cls \<notin> set (tl opn)" and oc: "hd opn \<notin> set (tl cls)"
    and two: "take 2 opn \<noteq> take 2 cls" "2 \<le> length opn" "2 \<le> length cls"
  shows "\<exists>vs. pre = q @ cls @ vs"
proof -
  from two have ne: "opn \<noteq> []" "cls \<noteq> []" by auto
  have start: "opn @ x = cls @ y \<Longrightarrow> False" for x y
  proof -
    assume "opn @ x = cls @ y"
    then have "take 2 (opn @ x) = take 2 (cls @ y)" by simp
    with two show False by simp
  qed
  from iffD1 [OF append_eq_append_conv2 eq]
  consider us where "pre = q @ us" "us @ opn @ partial = cls @ rest"
    | us where "pre @ us = q" "opn @ partial = us @ cls @ rest"
    by blast
  then show ?thesis
  proof cases
    case 1
    from iffD1 [OF append_eq_append_conv2 1(2)]
    consider vs where "us = cls @ vs"
      | vs where "us @ vs = cls" "opn @ partial = vs @ rest"
      by blast
    then show ?thesis
    proof cases
      case 1
      with \<open>pre = q @ us\<close> show ?thesis by simp
    next
      case 2
      show ?thesis
      proof (cases "vs = []")
        case True
        with 2 \<open>pre = q @ us\<close> have "pre = q @ cls @ []" by simp
        then show ?thesis by blast
      next
        case v: False
        show ?thesis
        proof (cases "us = []")
          case True
          with 2 have "opn @ partial = cls @ rest" by simp
          from start [OF this] show ?thesis ..
        next
          case False
          from 2(2) v ne have "hd vs = hd opn" by (cases vs; cases opn) auto
          moreover from False 2(1) v have "hd vs \<in> set (tl cls)"
            by (cases us; cases vs) auto
          ultimately show ?thesis using oc by simp
        qed
      qed
    qed
  next
    case 2
    show ?thesis
    proof (cases "us = []")
      case True
      with 2 have "opn @ partial = cls @ rest" by simp
      from start [OF this] show ?thesis ..
    next
      case False
      from iffD1 [OF append_eq_append_conv2 2(2)]
      consider ws where "opn = us @ ws" "ws @ partial = cls @ rest"
        | ws where "opn @ ws = us" "partial = ws @ cls @ rest"
        by blast
      then show ?thesis
      proof cases
        case 1
        show ?thesis
        proof (cases "ws = []")
          case True
          with 1 have "partial = [] @ cls @ rest" by simp
          then have "sublist cls partial" unfolding sublist_def by blast
          with part show ?thesis ..
        next
          case w: False
          from 1(2) w ne have "hd ws = hd cls" by (cases ws; cases cls) auto
          moreover from False 1(1) w have "hd ws \<in> set (tl opn)"
            by (cases us; cases ws) auto
          ultimately show ?thesis using co by simp
        qed
      next
        case 2
        then have "sublist cls partial" unfolding sublist_def by blast
        with part show ?thesis ..
      qed
    qed
  qed
qed

lemma lit_append: "lit l k (l @ s) = k s"
  by (simp add: lit_def)

lemma tag_regex_complete:
  "tag_regex opn cls (p @ opn @ cap @ cls @ rest) \<noteq> None"
proof -
  have "lit cls accept (cls @ rest) = Some rest" by (simp add: lit_append accept_def)
  then have "capture_lazy (lit cls accept) (cls @ rest) \<noteq> None"
    by (simp add: capture_lazy_here)
  from upward_append [OF upward_capture_lazy this, of cap]
  have "tag_here opn cls (opn @ cap @ cls @ rest) \<noteq> None"
    by (simp add: tag_here_def lit_append)
  then obtain r where "tag_here opn cls (opn @ cap @ cls @ rest) = Some r" by blast
  from scan_here [of "tag_here opn cls", OF this]
  have "scan (tag_here opn cls) (opn @ cap @ cls @ rest) \<noteq> None" by simp
  from upward_append [OF upward_scan this, of p] show ?thesis by (simp add: tag_regex_def)
qed

text \<open>The unterminated region adds nothing to the field.\<close>

lemma tagField_unterminated:
  assumes part: "\<not> includes_str partial cls"
    and co: "hd cls \<notin> set (tl opn)" and oc: "hd opn \<notin> set (tl cls)"
    and two: "take 2 opn \<noteq> take 2 cls" "2 \<le> length opn" "2 \<le> length cls"
  shows "tagField opn cls (pre @ opn @ partial) = tagField opn cls pre"
proof (cases "tag_regex opn cls pre")
  case (Some r)
  obtain cap rest where r: "r = (cap, rest)" by (cases r)
  from stable_tag_regex [of opn cls pre cap rest "opn @ partial"] Some r
  show ?thesis by (simp add: tagField_def)
next
  case None
  have "tag_regex opn cls (pre @ opn @ partial) = None"
  proof (rule ccontr)
    assume "tag_regex opn cls (pre @ opn @ partial) \<noteq> None"
    then obtain cap rest where "tag_regex opn cls (pre @ opn @ partial) = Some (cap, rest)"
      by auto
    from tag_regex_result [OF this] obtain p
      where "pre @ opn @ partial = (p @ opn @ cap) @ cls @ rest" by auto
    from closing_tag_before_open [OF this _ co oc two] part
    obtain vs where "pre = p @ opn @ cap @ cls @ vs"
      by (auto simp: includes_str_sublist)
    with tag_regex_complete [of opn cls p cap vs] None show False by simp
  qed
  with None show ?thesis by (simp add: tagField_def)
qed


lemma tag_regex_unterminated:
  assumes part: "\<not> includes_str partial cls"
    and co: "hd cls \<notin> set (tl opn)" and oc: "hd opn \<notin> set (tl cls)"
    and two: "take 2 opn \<noteq> take 2 cls" "2 \<le> length opn" "2 \<le> length cls"
  shows "map_option fst (tag_regex opn cls (pre @ opn @ partial))
           = map_option fst (tag_regex opn cls pre)"
proof (cases "tag_regex opn cls pre")
  case (Some r)
  obtain cap rest where r: "r = (cap, rest)" by (cases r)
  from stable_tag_regex [of opn cls pre cap rest "opn @ partial"] Some r
  show ?thesis by simp
next
  case None
  have "tag_regex opn cls (pre @ opn @ partial) = None"
  proof (rule ccontr)
    assume "tag_regex opn cls (pre @ opn @ partial) \<noteq> None"
    then obtain cap rest where "tag_regex opn cls (pre @ opn @ partial) = Some (cap, rest)"
      by auto
    from tag_regex_result [OF this] obtain p
      where "pre @ opn @ partial = (p @ opn @ cap) @ cls @ rest" by auto
    from closing_tag_before_open [OF this _ co oc two] part
    obtain vs where "pre = p @ opn @ cap @ cls @ vs"
      by (auto simp: includes_str_sublist)
    with tag_regex_complete [of opn cls p cap vs] None show False by simp
  qed
  with None show ?thesis by simp
qed

lemma gasField_unterminated:
  assumes "\<not> includes_str partial ''</gasEstimate>''"
  shows "gasField (pre @ ''<gasEstimate>'' @ partial) = gasField pre"
proof -
  have g: "gasField s = (case map_option fst (tag_regex ''<gasEstimate>'' ''</gasEstimate>'' s) of
             None \<Rightarrow> None
           | Some cap \<Rightarrow> if cap \<noteq> [] then Some (parseInt (trim cap)) else None)" for s
    by (auto simp: gasField_def split: option.splits)
  have "map_option fst (tag_regex ''<gasEstimate>'' ''</gasEstimate>''
            (pre @ ''<gasEstimate>'' @ partial))
          = map_option fst (tag_regex ''<gasEstimate>'' ''</gasEstimate>'' pre)"
    by (rule tag_regex_unterminated [OF assms]) simp_all
  then show ?thesis by (simp only: g)
qed

text \<open>The same for the other tags that fill a scalar field.\<close>

lemma unterminated_region_other_fields:
  "concat fs = pre @ ''<name>'' @ partial \<Longrightarrow> \<not> includes_str partial ''</name>''
     \<Longrightarrow> name (getFinalData (feed newHandler fs)) = name (getFinalData (feed newHandler [pre]))"
  "concat fs = pre @ ''<hookCode>'' @ partial \<Longrightarrow> \<not> includes_str partial ''</hookCode>''
     \<Longrightarrow> code (getFinalData (feed newHandler fs)) = code (getFinalData (feed newHandler [pre]))"
  "concat fs = pre @ ''<testCode>'' @ partial \<Longrightarrow> \<not> includes_str partial ''</testCode>''
     \<Longrightarrow> testCode (getFinalData (feed newHandler fs))
           = testCode (getFinalData (feed newHandler [pre]))"
  "concat fs = pre @ ''<gasEstimate>'' @ partial \<Longrightarrow> \<not> includes_str partial ''</gasEstimate>''
     \<Longrightarrow> gasEstimate (getFinalData (feed newHandler fs))
           = gasEstimate (getFinalData (feed newHandler [pre]))"
proof -
  show "concat fs = pre @ ''<name>'' @ partial \<Longrightarrow> \<not> includes_str partial ''</name>''
     \<Longrightarrow> name (getFinalData (feed newHandler fs)) = name (getFinalData (feed newHandler [pre]))"
    using tagField_unterminated [of partial "''</name>''" "''<name>''" pre]
    by (simp add: getFinalData_fields name_known)
  show "concat fs = pre @ ''<hookCode>'' @ partial \<Longrightarrow> \<not> includes_str partial ''</hookCode>''
     \<Longrightarrow> code (getFinalData (feed newHandler fs)) = code (getFinalData (feed newHandler [pre]))"
    using tagField_unterminated [of partial "''</hookCode>''" "''<hookCode>''" pre]
    by (simp add: getFinalData_fields code_known)
  show "concat fs = pre @ ''<testCode>'' @ partial \<Longrightarrow> \<not> includes_str partial ''</testCode>''
     \<Longrightarrow> testCode (getFinalData (feed newHandler fs))
           = testCode (getFinalData (feed newHandler [pre]))"
    using tagField_unterminated [of partial "''</testCode>''" "''<testCode>''" pre]
    by (simp add: getFinalData_fields testCode_known)
  show "concat fs = pre @ ''<gasEstimate>'' @ partial \<Longrightarrow> \<not> includes_str partial ''</gasEstimate>''
     \<Longrightarrow> gasEstimate (getFinalData (feed newHandler fs))
           = gasEstimate (getFinalData (feed newHandler [pre]))"
    using gasField_unterminated [of partial pre]
    by (simp add: getFinalData_fields gasEstimate_known)
qed





lemma tagField_try_eq: "tagField_try opn cls content = Inr (tagField opn cls content)"
  by (cases "tag_regex opn cls content")
    (auto simp: tagField_try_def tagField_def bindE_def group1_def)

lemma gasField_try_eq: "gasField_try content = Inr (gasField content)"
  by (cases "tag_regex ''<gasEstimate>'' ''</gasEstimate>'' content")
    (auto simp: gasField_try_def gasField_def bindE_def group1_def)

lemma complexityField_try_eq: "complexityField_try content = Inr (complexityField content)"
  by (cases "complexity_regex (toLowerCase content)")
    (auto simp: complexityField_try_def complexityField_def bindE_def group1_def)

lemma bindE_Inr: "bindE (Inr v) f = f v"
  by (simp add: bindE_def)

lemma extractTagsFromContent_body_eq:
  "extractTagsFromContent_body content = Inr (extractTagsFromContent content)"
  unfolding extractTagsFromContent_body_def tagField_try_eq gasField_try_eq
    complexityField_try_eq bindE_Inr extractTagsFromContent_def Let_def
  by simp

lemma extractTagsFromContent_try_eq:
  "extractTagsFromContent_try content = Inr (extractTagsFromContent content)"
  by (simp add: extractTagsFromContent_try_def extractTagsFromContent_body_eq)

lemma processFragment_body_eq:
  "processFragment_body f h = (Inr (fst (processFragment f h)), snd (processFragment f h))"
  by (cases "extractTagsFromContent (rawContent h @ f)")
    (simp_all add: processFragment_body_def extractTagsFromContent_try_eq objectKeys_def
      processFragment_def Let_def)

text \<open>
  C7. No exception leaves \<^verbatim>\<open>processFragment\<close>, for any fragment and any state of the
  handler: with its \<^verbatim>\<open>try\<close> and \<^verbatim>\<open>catch\<close> it returns a record, never an error. The
  bodies do not even throw: every read of \<^verbatim>\<open>m[1]\<close> and the call of \<^verbatim>\<open>Object.keys\<close> stand
  behind a test that the value is not \<^verbatim>\<open>null\<close>, so the extractor's body returns what
  \<open>extractTagsFromContent\<close> gives and the \<^verbatim>\<open>catch\<close> branches are not taken. What
  \<^verbatim>\<open>processFragment\<close> returns is the record that the handler now holds, with the buffer
  under \<^verbatim>\<open>_rawContent\<close>. The buffer afterwards is the old buffer followed by the fragment:
  nothing is ever taken out of it, whatever the fragment contains, and after a whole
  session it is the concatenation of all fragments. (Strings are unbounded here; the
  length limit of the engine's strings is outside the model.)
\<close>

theorem processFragment_never_throws:
  "processFragment_try f h = (Inr (fst (processFragment f h)), snd (processFragment f h))
   \<and> extractTagsFromContent_body content = Inr (extractTagsFromContent content)
   \<and> fst (processFragment f h)
     = (lastParsedData (snd (processFragment f h)))
         \<lparr> u_rawContent := Some (rawContent (snd (processFragment f h))) \<rparr>
   \<and> rawContent (snd (processFragment f h)) = rawContent h @ f
   \<and> rawContent (feed h fs) = rawContent h @ concat fs"
proof -
  have "processFragment_try f h = (Inr (fst (processFragment f h)), snd (processFragment f h))"
    by (simp add: processFragment_try_def processFragment_body_eq)
  moreover have "fst (processFragment f h)
     = (lastParsedData (snd (processFragment f h)))
         \<lparr> u_rawContent := Some (rawContent (snd (processFragment f h))) \<rparr>"
    by (simp add: processFragment_def Let_def)
  ultimately show ?thesis
    by (simp add: extractTagsFromContent_body_eq rawContent_feed)
qed

theorem processFragment_never_throws_witness:
  "processFragment_try ''<name>Fee</name><gasEstimate>abc</gasEst'' newHandler
     = (Inr (fst (processFragment ''<name>Fee</name><gasEstimate>abc</gasEst'' newHandler)),
        snd (processFragment ''<name>Fee</name><gasEstimate>abc</gasEst'' newHandler))
   \<and> extractTagsFromContent_body ''</name><name><description>''
     = Inr (extractTagsFromContent ''</name><name><description>'')
   \<and> fst (processFragment ''<name>Fee</name><gasEstimate>abc</gasEst'' newHandler)
     = (lastParsedData (snd (processFragment ''<name>Fee</name><gasEstimate>abc</gasEst''
          newHandler)))
         \<lparr> u_rawContent := Some (rawContent (snd (processFragment
             ''<name>Fee</name><gasEstimate>abc</gasEst'' newHandler))) \<rparr>
   \<and> rawContent (snd (processFragment ''<name>Fee</name><gasEstimate>abc</gasEst'' newHandler))
     = rawContent newHandler @ ''<name>Fee</name><gasEstimate>abc</gasEst''
   \<and> rawContent (feed newHandler [''<na'', ''me>Fee</name><gasEst''])
     = rawContent newHandler @ concat [''<na'', ''me>Fee</name><gasEst'']"
  by (rule processFragment_never_throws)

text \<open>
  C8. When none of the six phrases occurs in the lower-cased buffer and the extraction
  from the buffer sets a structured field (name, description, code, gas estimate,
  complexity, functionalities, test code or examples), the record that
  \<^verbatim>\<open>processFragment\<close> returns and the record that the handler keeps have the hook type
  \<^verbatim>\<open>custom\<close>.
\<close>

theorem hookType_defaults_to_custom:
  assumes phrases: "\<forall>t \<in> set hookTypes. \<not> includes_str (toLowerCase (rawContent h @ f)) t"
    and found: "extractTagsFromContent (rawContent h @ f) = Some d"
    and field: "name d \<noteq> None \<or> description d \<noteq> None \<or> code d \<noteq> None \<or> gasEstimate d \<noteq> None
      \<or> complexity d \<noteq> None \<or> functionalities d \<noteq> None \<or> testCode d \<noteq> None
      \<or> examples d \<noteq> None"
  shows "hookType (fst (processFragment f h)) = Some ''custom''
    \<and> hookType (lastParsedData (snd (processFragment f h))) = Some ''custom''"
proof -
  from phrases have p: "phraseField (rawContent h @ f) = None"
    by (simp add: phraseField_def find_None_iff)
  from found have d: "d = hookDataOf (rawContent h @ f)"
    by (simp add: extract_eq split: if_splits)
  with field have "foundStructured (rawContent h @ f)"
    unfolding foundStructured_def hookDataOf_def by simp blast
  with p d have "hookType d = Some ''custom''" by (simp add: hookDataOf_def)
  with found show ?thesis
    by (simp add: processFragment_def Let_def spread_def override_def)
qed

theorem hookType_defaults_to_custom_witness:
  "hookType (fst (processFragment ''<hookCode>contract A{}</hookCode>''
      (newHandler \<lparr> rawContent := ''Here is the hook. '' \<rparr>))) = Some ''custom''"
proof -
  let ?h = "newHandler \<lparr> rawContent := ''Here is the hook. '' \<rparr>"
  let ?f = "''<hookCode>contract A{}</hookCode>''"
  have 1: "\<forall>t \<in> set hookTypes. \<not> includes_str (toLowerCase (rawContent ?h @ ?f)) t"
    by code_simp
  have 2: "extractTagsFromContent (rawContent ?h @ ?f)
             = Some (emptyData \<lparr> code := Some ''contract A{}'', hookType := Some ''custom'' \<rparr>)"
    by code_simp
  have 3: "code (emptyData \<lparr> code := Some ''contract A{}'', hookType := Some ''custom'' \<rparr>) \<noteq> None"
    by simp
  from hookType_defaults_to_custom [OF 1 2] 3 show ?thesis by blast
qed


text \<open>
  C4. The claim is what \<^verbatim>\<open>handleHookCodeData\<close> of the page does, which keeps the gas
  estimate only when it is a number. \<^verbatim>\<open>extractTagsFromContent\<close> has no such test: for
  the content \<^verbatim>\<open><gasEstimate>abc</gasEstimate>\<close> it stores \<^verbatim>\<open>NaN\<close> under
  \<^verbatim>\<open>gasEstimate\<close>, counts the field as found and defaults the hook type.
\<close>

theorem gasEstimate_not_a_number_is_stored:
  "extractTagsFromContent ''<gasEstimate>abc</gasEstimate>''
     = Some (emptyData \<lparr> gasEstimate := Some NaN, hookType := Some ''custom'' \<rparr>)
   \<and> gasEstimate (fst (processFragment ''<gasEstimate>abc</gasEstimate>'' newHandler)) = Some NaN
   \<and> gasEstimate (getFinalData (feed newHandler [''<gasEstimate>abc</gasEstimate>''])) = Some NaN
   \<and> gasEstimate (streamingHookCode
         (handleHookCodeData ''<hookCode>x</hookCode><gasEstimate>abc</gasEstimate>'' p)) = None"
  by code_simp simp

theorem gasEstimate_not_a_number_is_stored_witness:
  "extractTagsFromContent ''<gasEstimate>abc</gasEstimate>''
     = Some (emptyData \<lparr> gasEstimate := Some NaN, hookType := Some ''custom'' \<rparr>)
   \<and> gasEstimate (fst (processFragment ''<gasEstimate>abc</gasEstimate>'' newHandler)) = Some NaN
   \<and> gasEstimate (getFinalData (feed newHandler [''<gasEstimate>abc</gasEstimate>''])) = Some NaN
   \<and> gasEstimate (streamingHookCode
         (handleHookCodeData ''<hookCode>x</hookCode><gasEstimate>abc</gasEstimate>''
            initialPage)) = None"
  by (rule gasEstimate_not_a_number_is_stored)


text \<open>
  C9. An error frame, handled by the chat component and through its callbacks by the
  page, moves the session to its error state: the page holds the message in \<^verbatim>\<open>error\<close>
  and both components leave the streaming state. What was extracted before is kept: the
  partial record \<^verbatim>\<open>streamingHookCode\<close> of the page, the parsed reply and hook code of the
  chat component, and the accumulated reply. This holds for every state of the two
  components and whatever snapshot the closure of the page sees. (The raw text buffer
  and the unparsed \<^verbatim>\<open>streamingReply\<close> are cleared, the chat component's own
  \<^verbatim>\<open>streamError\<close> is reset by \<^verbatim>\<open>resetStreamingState\<close>, and the page may replace
  \<^verbatim>\<open>jsonData\<close> by the final data of its handler.)
\<close>

theorem error_frame_keeps_extracted_state:
  "streamingHookCode (snd (frame seen (ErrorChunk msg) (c, p))) = streamingHookCode p
   \<and> parsedContent (fst (frame seen (ErrorChunk msg) (c, p))) = parsedContent c
   \<and> accumulatedReplyRef (fst (frame seen (ErrorChunk msg) (c, p))) = accumulatedReplyRef c
   \<and> error (snd (frame seen (ErrorChunk msg) (c, p))) = Some msg
   \<and> isStreaming (snd (frame seen (ErrorChunk msg) (c, p))) = False
   \<and> isStreamingReply (fst (frame seen (ErrorChunk msg) (c, p))) = False
   \<and> calls (fst (frame seen (ErrorChunk msg) (c, p))) = [OnError msg, OnStreamingChange False]"
  by (simp add: frame_def handleStreamError_def resetStreamingState_def Let_def
      handleError_def handleStreamingChange_def split: option.splits)

section \<open>The buffer of the chat component\<close>

lemma indexOf_first: "indexOf s pat = Some i \<Longrightarrow> s = a @ pat @ b \<Longrightarrow> i \<le> length a"
proof (induction s arbitrary: i a)
  case Nil
  then show ?case by (auto split: if_splits)
next
  case (Cons c cs)
  show ?case
  proof (cases "prefix pat (c # cs)")
    case True
    with Cons.prems(1) have "i = 0" by simp
    then show ?thesis by simp
  next
    case False
    with Cons.prems(1) obtain j where j: "indexOf cs pat = Some j" "i = Suc j" by auto
    from False Cons.prems(2) have "a \<noteq> []" by (cases a) auto
    then obtain a' where a: "a = c # a'" using Cons.prems(2) by (cases a) auto
    with Cons.prems(2) have "cs = a' @ pat @ b" by simp
    from Cons.IH [OF j(1) this] j(2) a show ?thesis by simp
  qed
qed

lemma indexOf_from_Some:
  assumes "indexOf_from s pat j = Some e"
  shows "prefix pat (drop e s) \<and> min j (length s) \<le> e \<and> e \<le> length s"
proof -
  from assms obtain k where k: "indexOf (drop (min j (length s)) s) pat = Some k"
    "e = k + min j (length s)"
    by (auto simp: indexOf_from_def Let_def)
  from indexOf_Some [OF k(1)] k(2) show ?thesis by (auto simp: add.commute)
qed

text \<open>What \<^verbatim>\<open>findRegion\<close> finds is a region of the buffer, and the new buffer is the old
  one without it.\<close>

lemma findRegion_Some:
  assumes "findRegion buffer openTag closeTag = Some (content, buffer')"
  shows "\<exists>pre mid post. buffer = pre @ openTag @ mid @ closeTag @ post
           \<and> buffer' = pre @ post \<and> content = trim mid"
proof -
  from assms obtain i e where i: "indexOf buffer openTag = Some i"
    and e: "indexOf_from buffer closeTag (i + length openTag) = Some e"
    and c: "content = trim (substring buffer (i + length openTag) e)"
    and b: "buffer' = substring buffer 0 i @ substring_from buffer (e + length closeTag)"
    by (auto simp: findRegion_def Let_def split: option.splits)
  from indexOf_Some [OF i] have po: "prefix openTag (drop i buffer)" and il: "i \<le> length buffer"
    by auto
  from indexOf_bound [OF i] have io: "i + length openTag \<le> length buffer" .
  from indexOf_from_Some [OF e] io
  have pc: "prefix closeTag (drop e buffer)" and ie: "i + length openTag \<le> e"
    and el: "e \<le> length buffer" by auto
  from indexOf_from_bound [OF e] have ec: "e + length closeTag \<le> length buffer" by simp
  let ?pre = "take i buffer"
  let ?mid = "take (e - (i + length openTag)) (drop (i + length openTag) buffer)"
  let ?post = "drop (e + length closeTag) buffer"
  from po have 1: "drop i buffer = openTag @ drop (i + length openTag) buffer"
    by (auto simp: prefix_def) (metis add.commute append_eq_conv_conj drop_drop)
  from pc have 2: "drop e buffer = closeTag @ ?post"
    by (auto simp: prefix_def) (metis add.commute append_eq_conv_conj drop_drop)
  have 3: "drop (i + length openTag) buffer = ?mid @ drop e buffer"
  proof -
    have "drop (i + length openTag) buffer
            = ?mid @ drop (e - (i + length openTag)) (drop (i + length openTag) buffer)"
      by (rule append_take_drop_id [symmetric])
    also have "drop (e - (i + length openTag)) (drop (i + length openTag) buffer) = drop e buffer"
      using ie by simp
    finally show ?thesis .
  qed
  have "buffer = ?pre @ drop i buffer" by simp
  also have "\<dots> = ?pre @ openTag @ ?mid @ closeTag @ ?post"
    by (simp only: 1 [symmetric] 2 [symmetric] 3 [symmetric])
  finally have s: "buffer = ?pre @ openTag @ ?mid @ closeTag @ ?post" .
  have "buffer' = ?pre @ ?post" using b il ec by (simp add: substring_def substring_from_def)
  moreover have "content = trim ?mid" using c ie el io
    by (simp add: substring_def Let_def min_def max_def)
  ultimately show ?thesis using s by blast
qed

lemma findRegion_None:
  assumes "findRegion buffer openTag closeTag = None"
  shows "\<not> (\<exists>pre mid post. buffer = pre @ openTag @ mid @ closeTag @ post)"
proof
  assume "\<exists>pre mid post. buffer = pre @ openTag @ mid @ closeTag @ post"
  then obtain pre mid post where s: "buffer = pre @ openTag @ mid @ closeTag @ post" by blast
  then have "sublist openTag buffer" by (auto simp: sublist_def)
  then obtain i where i: "indexOf buffer openTag = Some i"
    using includes_str_sublist [of buffer openTag] by (auto simp: includes_str_def)
  from indexOf_first [OF i s] have ip: "i \<le> length pre" .
  let ?j = "i + length openTag"
  from s ip have "drop ?j buffer = drop ?j (pre @ openTag) @ mid @ closeTag @ post"
    by simp
  then have "sublist closeTag (drop ?j buffer)"
    by (metis append.assoc sublist_appendI)
  then have "indexOf (drop ?j buffer) closeTag \<noteq> None"
    using includes_str_sublist [of "drop ?j buffer" closeTag] by (simp add: includes_str_def)
  moreover from indexOf_bound [OF i] have "min ?j (length buffer) = ?j" by simp
  ultimately have "indexOf_from buffer closeTag ?j \<noteq> None"
    by (simp add: indexOf_from_def Let_def)
  with i assms show False by (auto simp: findRegion_def Let_def split: option.splits)
qed

lemma appendTagContentToReply_None:
  "appendTagContentToReply openTag closeTag pfx st = None
   \<longleftrightarrow> findRegion (bufferRef st) openTag closeTag = None"
  by (auto simp: appendTagContentToReply_def Let_def split: option.splits)

lemma extractHookCode_None:
  "extractHookCode openTag closeTag st = None
   \<longleftrightarrow> findRegion (bufferRef st) openTag closeTag = None"
  by (auto simp: extractHookCode_def Let_def split: option.splits)

lemma processBuffer_stable:
  "findRegion (bufferRef (processBuffer st)) ''<reply>'' ''</reply>'' = None
   \<and> findRegion (bufferRef (processBuffer st)) ''<hookCode>'' ''</hookCode>'' = None"
proof (induction st rule: processBuffer.induct)
  case (1 st)
  let ?st1 = "(case appendTagContentToReply ''<reply>'' ''</reply>'' [] st of
                 Some st' \<Rightarrow> processBuffer st'
               | None \<Rightarrow> st)"
  show ?case
  proof (cases "extractHookCode ''<hookCode>'' ''</hookCode>'' ?st1")
    case (Some st2)
    from "1.IH"(2) [OF refl Some] Some show ?thesis
      by (subst (1 2) processBuffer.simps) (simp add: Let_def)
  next
    case None
    then have r: "processBuffer st = ?st1"
      by (subst processBuffer.simps) (simp add: Let_def)
    from None have h: "findRegion (bufferRef ?st1) ''<hookCode>'' ''</hookCode>'' = None"
      by (simp add: extractHookCode_None)
    have "findRegion (bufferRef ?st1) ''<reply>'' ''</reply>'' = None"
    proof (cases "appendTagContentToReply ''<reply>'' ''</reply>'' [] st")
      case a: None
      then have "?st1 = st" by simp
      with a show ?thesis by (simp add: appendTagContentToReply_None)
    next
      case a: (Some st')
      then have "?st1 = processBuffer st'" by simp
      with "1.IH"(1) [OF a] show ?thesis by simp
    qed
    with h r show ?thesis by simp
  qed
qed


text \<open>
  C3, as stated, fails for \<^verbatim>\<open>JsonStreamHandler\<close>: \<^verbatim>\<open>processFragment\<close> extracts the name
  from the region and the buffer afterwards is still the whole region.
\<close>

theorem handler_buffer_keeps_region_counterexample:
  "name (lastParsedData (snd (processFragment ''<name>A</name>'' newHandler))) = Some ''A''
   \<and> rawContent (snd (processFragment ''<name>A</name>'' newHandler)) = ''<name>A</name>''"
  by code_simp

text \<open>
  C3, amended: the buffer of the chat component is drained, for the two tags that
  \<^verbatim>\<open>processBuffer\<close> handles. A helper that finds a completed reply or hook code region
  takes the region, opening tag through closing tag, out of \<^verbatim>\<open>bufferRef\<close> and runs
  \<^verbatim>\<open>processBuffer\<close> again; when \<^verbatim>\<open>processBuffer\<close> returns, the buffer holds no completed
  reply region and no completed hook code region. \<^verbatim>\<open>JsonStreamHandler\<close> never shortens
  its buffer.
\<close>

theorem processBuffer_drains_buffer:
  "(appendTagContentToReply ''<reply>'' ''</reply>'' [] st = Some st' \<longrightarrow>
      (\<exists>pre mid post. bufferRef st = pre @ ''<reply>'' @ mid @ ''</reply>'' @ post
         \<and> bufferRef st' = pre @ post))
   \<and> (extractHookCode ''<hookCode>'' ''</hookCode>'' st = Some st'' \<longrightarrow>
      (\<exists>pre mid post. bufferRef st = pre @ ''<hookCode>'' @ mid @ ''</hookCode>'' @ post
         \<and> bufferRef st'' = pre @ post))
   \<and> \<not> (\<exists>pre mid post.
         bufferRef (processBuffer st) = pre @ ''<reply>'' @ mid @ ''</reply>'' @ post)
   \<and> \<not> (\<exists>pre mid post.
         bufferRef (processBuffer st) = pre @ ''<hookCode>'' @ mid @ ''</hookCode>'' @ post)
   \<and> rawContent (snd (processFragment f h)) = rawContent h @ f"
proof (intro conjI impI)
  assume "appendTagContentToReply ''<reply>'' ''</reply>'' [] st = Some st'"
  then obtain content where "findRegion (bufferRef st) ''<reply>'' ''</reply>''
      = Some (content, bufferRef st')"
    by (auto simp: appendTagContentToReply_def Let_def split: option.splits if_splits)
  from findRegion_Some [OF this]
  show "\<exists>pre mid post. bufferRef st = pre @ ''<reply>'' @ mid @ ''</reply>'' @ post
         \<and> bufferRef st' = pre @ post" by blast
next
  assume "extractHookCode ''<hookCode>'' ''</hookCode>'' st = Some st''"
  then obtain content where "findRegion (bufferRef st) ''<hookCode>'' ''</hookCode>''
      = Some (content, bufferRef st'')"
    by (auto simp: extractHookCode_def Let_def split: option.splits if_splits)
  from findRegion_Some [OF this]
  show "\<exists>pre mid post. bufferRef st = pre @ ''<hookCode>'' @ mid @ ''</hookCode>'' @ post
         \<and> bufferRef st'' = pre @ post" by blast
next
  from processBuffer_stable [of st]
  show "\<not> (\<exists>pre mid post.
         bufferRef (processBuffer st) = pre @ ''<reply>'' @ mid @ ''</reply>'' @ post)"
    by (blast dest: findRegion_None)
next
  from processBuffer_stable [of st]
  show "\<not> (\<exists>pre mid post.
         bufferRef (processBuffer st) = pre @ ''<hookCode>'' @ mid @ ''</hookCode>'' @ post)"
    by (blast dest: findRegion_None)
next
  show "rawContent (snd (processFragment f h)) = rawContent h @ f" by simp
qed


theorem processBuffer_drains_buffer_witness:
  "appendTagContentToReply ''<reply>'' ''</reply>'' []
       (initialChat \<lparr> bufferRef := ''Hi<reply>there</reply><hookCode>contract A{}</hookCode>'' \<rparr>)
     = Some (initialChat \<lparr> bufferRef := ''Hi<hookCode>contract A{}</hookCode>'',
               accumulatedReplyRef := ''there'',
               parsedContent := \<lparr> reply = ''there'', hookCode = [] \<rparr> \<rparr>)
   \<and> extractHookCode ''<hookCode>'' ''</hookCode>''
       (initialChat \<lparr> bufferRef := ''Hi<reply>there</reply><hookCode>contract A{}</hookCode>'' \<rparr>)
     = Some (initialChat \<lparr> bufferRef := ''Hi<reply>there</reply>'',
               parsedContent := \<lparr> reply = [], hookCode = ''contract A{}'' \<rparr>,
               calls := [OnReplyReceived ''<hookCode>contract A{}</hookCode>''] \<rparr>)
   \<and> (\<exists>pre mid post.
         ''Hi<reply>there</reply><hookCode>contract A{}</hookCode>''
           = pre @ ''<reply>'' @ mid @ ''</reply>'' @ post
         \<and> ''Hi<hookCode>contract A{}</hookCode>'' = pre @ post)
   \<and> (\<exists>pre mid post.
         ''Hi<reply>there</reply><hookCode>contract A{}</hookCode>''
           = pre @ ''<hookCode>'' @ mid @ ''</hookCode>'' @ post
         \<and> ''Hi<reply>there</reply>'' = pre @ post)
   \<and> bufferRef (processBuffer
         (initialChat \<lparr> bufferRef := ''Hi<reply>there</reply><hookCode>contract A{}</hookCode>'' \<rparr>))
       = ''Hi''"
proof -
  let ?st = "initialChat \<lparr> bufferRef := ''Hi<reply>there</reply><hookCode>contract A{}</hookCode>'' \<rparr>"
  let ?st1 = "initialChat \<lparr> bufferRef := ''Hi<hookCode>contract A{}</hookCode>'',
               accumulatedReplyRef := ''there'',
               parsedContent := \<lparr> reply = ''there'', hookCode = [] \<rparr> \<rparr>"
  let ?st2 = "initialChat \<lparr> bufferRef := ''Hi<reply>there</reply>'',
               parsedContent := \<lparr> reply = [], hookCode = ''contract A{}'' \<rparr>,
               calls := [OnReplyReceived ''<hookCode>contract A{}</hookCode>''] \<rparr>"
  have a: "appendTagContentToReply ''<reply>'' ''</reply>'' [] ?st = Some ?st1"
    by code_simp
  have e: "extractHookCode ''<hookCode>'' ''</hookCode>'' ?st = Some ?st2"
    by code_simp
  have b: "bufferRef (processBuffer ?st) = ''Hi''"
    by code_simp
  have b1: "bufferRef ?st = ''Hi<reply>there</reply><hookCode>contract A{}</hookCode>''"
    "bufferRef ?st1 = ''Hi<hookCode>contract A{}</hookCode>''"
    "bufferRef ?st2 = ''Hi<reply>there</reply>''"
    by simp_all
  from processBuffer_drains_buffer [of ?st ?st1 ?st2] a e b
  show ?thesis unfolding b1 by blast
qed

section \<open>Regions with empty content\<close>

text \<open>The regions of the tags that fill a field or a list entry, with nothing between
  the opening and the closing tag.\<close>

definition emptyRegions :: "string list" where
  "emptyRegions = [''<name></name>'', ''<description></description>'',
     ''<hookCode></hookCode>'', ''<gasEstimate></gasEstimate>'', ''<testCode></testCode>'',
     ''<example></example>'', ''<reply></reply>'']"

text \<open>\<open>quiet s\<close>: an extraction from \<open>s\<close> sets nothing.\<close>

definition quiet :: "string \<Rightarrow> bool" where
  "quiet s \<longleftrightarrow>
     tagField ''<name>'' ''</name>'' s = None
     \<and> tagField ''<description>'' ''</description>'' s = None
     \<and> tagField ''<hookCode>'' ''</hookCode>'' s = None
     \<and> gasField s = None
     \<and> complexityField s = None
     \<and> listField (featureMatches s) = None
     \<and> tagField ''<testCode>'' ''</testCode>'' s = None
     \<and> listField (exampleMatches s) = None
     \<and> phraseField s = None
     \<and> tagField ''<reply>'' ''</reply>'' s = None"

lemma extract_None_quiet: "extractTagsFromContent s = None \<longleftrightarrow> quiet s"
  by (auto simp: extract_eq foundStructured_def quiet_def)

lemmas tag_eval = tagField_def gasField_def tag_regex_def tag_here_def lit_def accept_def

lemmas regex_eval = tag_eval
  complexityField_def complexity_regex_def feature_regex_def toLowerCase_def lowerChar_def
  phraseField_def hookTypes_def includes_str_def

lemma listField_empty_capture: "listField ([] # caps) = listField caps"
  by (simp add: listField_def)

lemma quiet_Nil: "quiet []"
  by (simp add: quiet_def regex_eval listField_def exampleMatches.simps featureMatches.simps)

text \<open>An empty region in front of a text adds nothing to what an extraction finds: each
  expression either matches the region with an empty group or passes over it.\<close>

lemma quiet_name:
  assumes "quiet s"
  shows "quiet (''<name></name>'' @ s)"
proof -
  have tg: "tagField ''<name>'' ''</name>'' (''<name></name>'' @ s) = None"
    "tagField ''<description>'' ''</description>'' (''<name></name>'' @ s) = tagField ''<description>'' ''</description>'' s"
    "tagField ''<hookCode>'' ''</hookCode>'' (''<name></name>'' @ s) = tagField ''<hookCode>'' ''</hookCode>'' s"
    "tagField ''<testCode>'' ''</testCode>'' (''<name></name>'' @ s) = tagField ''<testCode>'' ''</testCode>'' s"
    "tagField ''<reply>'' ''</reply>'' (''<name></name>'' @ s) = tagField ''<reply>'' ''</reply>'' s"
    "gasField (''<name></name>'' @ s) = gasField s"
    by (simp_all add: tag_eval)
  have ex: "exampleMatches (''<name></name>'' @ s) = exampleMatches s"
    by (subst exampleMatches.simps, subst (2) exampleMatches.simps) (simp add: tag_eval)
  have fe: "featureMatches (''<name></name>'' @ s) = featureMatches s"
    by (subst featureMatches.simps, subst (2) featureMatches.simps)
      (simp add: feature_regex_def lit_def)
  have co: "complexityField (''<name></name>'' @ s) = complexityField s"
    by (simp add: complexityField_def complexity_regex_def lit_def toLowerCase_def lowerChar_def)
  have ph: "phraseField (''<name></name>'' @ s) = phraseField s"
    by (simp add: phraseField_def hookTypes_def includes_str_def toLowerCase_def lowerChar_def)
  from assms show ?thesis
    unfolding quiet_def tg ex fe co ph listField_empty_capture by simp
qed

lemma quiet_description:
  assumes "quiet s"
  shows "quiet (''<description></description>'' @ s)"
proof -
  have tg: "tagField ''<name>'' ''</name>'' (''<description></description>'' @ s) = tagField ''<name>'' ''</name>'' s"
    "tagField ''<description>'' ''</description>'' (''<description></description>'' @ s) = None"
    "tagField ''<hookCode>'' ''</hookCode>'' (''<description></description>'' @ s) = tagField ''<hookCode>'' ''</hookCode>'' s"
    "tagField ''<testCode>'' ''</testCode>'' (''<description></description>'' @ s) = tagField ''<testCode>'' ''</testCode>'' s"
    "tagField ''<reply>'' ''</reply>'' (''<description></description>'' @ s) = tagField ''<reply>'' ''</reply>'' s"
    "gasField (''<description></description>'' @ s) = gasField s"
    by (simp_all add: tag_eval)
  have ex: "exampleMatches (''<description></description>'' @ s) = exampleMatches s"
    by (subst exampleMatches.simps, subst (2) exampleMatches.simps) (simp add: tag_eval)
  have fe: "featureMatches (''<description></description>'' @ s) = featureMatches s"
    by (subst featureMatches.simps, subst (2) featureMatches.simps)
      (simp add: feature_regex_def lit_def)
  have co: "complexityField (''<description></description>'' @ s) = complexityField s"
    by (simp add: complexityField_def complexity_regex_def lit_def toLowerCase_def lowerChar_def)
  have ph: "phraseField (''<description></description>'' @ s) = phraseField s"
    by (simp add: phraseField_def hookTypes_def includes_str_def toLowerCase_def lowerChar_def)
  from assms show ?thesis
    unfolding quiet_def tg ex fe co ph listField_empty_capture by simp
qed

lemma quiet_hookCode:
  assumes "quiet s"
  shows "quiet (''<hookCode></hookCode>'' @ s)"
proof -
  have tg: "tagField ''<name>'' ''</name>'' (''<hookCode></hookCode>'' @ s) = tagField ''<name>'' ''</name>'' s"
    "tagField ''<description>'' ''</description>'' (''<hookCode></hookCode>'' @ s) = tagField ''<description>'' ''</description>'' s"
    "tagField ''<hookCode>'' ''</hookCode>'' (''<hookCode></hookCode>'' @ s) = None"
    "tagField ''<testCode>'' ''</testCode>'' (''<hookCode></hookCode>'' @ s) = tagField ''<testCode>'' ''</testCode>'' s"
    "tagField ''<reply>'' ''</reply>'' (''<hookCode></hookCode>'' @ s) = tagField ''<reply>'' ''</reply>'' s"
    "gasField (''<hookCode></hookCode>'' @ s) = gasField s"
    by (simp_all add: tag_eval)
  have ex: "exampleMatches (''<hookCode></hookCode>'' @ s) = exampleMatches s"
    by (subst exampleMatches.simps, subst (2) exampleMatches.simps) (simp add: tag_eval)
  have fe: "featureMatches (''<hookCode></hookCode>'' @ s) = featureMatches s"
    by (subst featureMatches.simps, subst (2) featureMatches.simps)
      (simp add: feature_regex_def lit_def)
  have co: "complexityField (''<hookCode></hookCode>'' @ s) = complexityField s"
    by (simp add: complexityField_def complexity_regex_def lit_def toLowerCase_def lowerChar_def)
  have ph: "phraseField (''<hookCode></hookCode>'' @ s) = phraseField s"
    by (simp add: phraseField_def hookTypes_def includes_str_def toLowerCase_def lowerChar_def)
  from assms show ?thesis
    unfolding quiet_def tg ex fe co ph listField_empty_capture by simp
qed

lemma quiet_gasEstimate:
  assumes "quiet s"
  shows "quiet (''<gasEstimate></gasEstimate>'' @ s)"
proof -
  have tg: "tagField ''<name>'' ''</name>'' (''<gasEstimate></gasEstimate>'' @ s) = tagField ''<name>'' ''</name>'' s"
    "tagField ''<description>'' ''</description>'' (''<gasEstimate></gasEstimate>'' @ s) = tagField ''<description>'' ''</description>'' s"
    "tagField ''<hookCode>'' ''</hookCode>'' (''<gasEstimate></gasEstimate>'' @ s) = tagField ''<hookCode>'' ''</hookCode>'' s"
    "tagField ''<testCode>'' ''</testCode>'' (''<gasEstimate></gasEstimate>'' @ s) = tagField ''<testCode>'' ''</testCode>'' s"
    "tagField ''<reply>'' ''</reply>'' (''<gasEstimate></gasEstimate>'' @ s) = tagField ''<reply>'' ''</reply>'' s"
    "gasField (''<gasEstimate></gasEstimate>'' @ s) = None"
    by (simp_all add: tag_eval)
  have ex: "exampleMatches (''<gasEstimate></gasEstimate>'' @ s) = exampleMatches s"
    by (subst exampleMatches.simps, subst (2) exampleMatches.simps) (simp add: tag_eval)
  have fe: "featureMatches (''<gasEstimate></gasEstimate>'' @ s) = featureMatches s"
    by (subst featureMatches.simps, subst (2) featureMatches.simps)
      (simp add: feature_regex_def lit_def)
  have co: "complexityField (''<gasEstimate></gasEstimate>'' @ s) = complexityField s"
    by (simp add: complexityField_def complexity_regex_def lit_def toLowerCase_def lowerChar_def)
  have ph: "phraseField (''<gasEstimate></gasEstimate>'' @ s) = phraseField s"
    by (simp add: phraseField_def hookTypes_def includes_str_def toLowerCase_def lowerChar_def)
  from assms show ?thesis
    unfolding quiet_def tg ex fe co ph listField_empty_capture by simp
qed

lemma quiet_testCode:
  assumes "quiet s"
  shows "quiet (''<testCode></testCode>'' @ s)"
proof -
  have tg: "tagField ''<name>'' ''</name>'' (''<testCode></testCode>'' @ s) = tagField ''<name>'' ''</name>'' s"
    "tagField ''<description>'' ''</description>'' (''<testCode></testCode>'' @ s) = tagField ''<description>'' ''</description>'' s"
    "tagField ''<hookCode>'' ''</hookCode>'' (''<testCode></testCode>'' @ s) = tagField ''<hookCode>'' ''</hookCode>'' s"
    "tagField ''<testCode>'' ''</testCode>'' (''<testCode></testCode>'' @ s) = None"
    "tagField ''<reply>'' ''</reply>'' (''<testCode></testCode>'' @ s) = tagField ''<reply>'' ''</reply>'' s"
    "gasField (''<testCode></testCode>'' @ s) = gasField s"
    by (simp_all add: tag_eval)
  have ex: "exampleMatches (''<testCode></testCode>'' @ s) = exampleMatches s"
    by (subst exampleMatches.simps, subst (2) exampleMatches.simps) (simp add: tag_eval)
  have fe: "featureMatches (''<testCode></testCode>'' @ s) = featureMatches s"
    by (subst featureMatches.simps, subst (2) featureMatches.simps)
      (simp add: feature_regex_def lit_def)
  have co: "complexityField (''<testCode></testCode>'' @ s) = complexityField s"
    by (simp add: complexityField_def complexity_regex_def lit_def toLowerCase_def lowerChar_def)
  have ph: "phraseField (''<testCode></testCode>'' @ s) = phraseField s"
    by (simp add: phraseField_def hookTypes_def includes_str_def toLowerCase_def lowerChar_def)
  from assms show ?thesis
    unfolding quiet_def tg ex fe co ph listField_empty_capture by simp
qed

lemma quiet_example:
  assumes "quiet s"
  shows "quiet (''<example></example>'' @ s)"
proof -
  have tg: "tagField ''<name>'' ''</name>'' (''<example></example>'' @ s) = tagField ''<name>'' ''</name>'' s"
    "tagField ''<description>'' ''</description>'' (''<example></example>'' @ s) = tagField ''<description>'' ''</description>'' s"
    "tagField ''<hookCode>'' ''</hookCode>'' (''<example></example>'' @ s) = tagField ''<hookCode>'' ''</hookCode>'' s"
    "tagField ''<testCode>'' ''</testCode>'' (''<example></example>'' @ s) = tagField ''<testCode>'' ''</testCode>'' s"
    "tagField ''<reply>'' ''</reply>'' (''<example></example>'' @ s) = tagField ''<reply>'' ''</reply>'' s"
    "gasField (''<example></example>'' @ s) = gasField s"
    by (simp_all add: tag_eval)
  have ex: "exampleMatches (''<example></example>'' @ s) = [] # exampleMatches s"
    by (subst exampleMatches.simps) (simp add: tag_eval)
  have fe: "featureMatches (''<example></example>'' @ s) = featureMatches s"
    by (subst featureMatches.simps, subst (2) featureMatches.simps)
      (simp add: feature_regex_def lit_def)
  have co: "complexityField (''<example></example>'' @ s) = complexityField s"
    by (simp add: complexityField_def complexity_regex_def lit_def toLowerCase_def lowerChar_def)
  have ph: "phraseField (''<example></example>'' @ s) = phraseField s"
    by (simp add: phraseField_def hookTypes_def includes_str_def toLowerCase_def lowerChar_def)
  from assms show ?thesis
    unfolding quiet_def tg ex fe co ph listField_empty_capture by simp
qed

lemma quiet_reply:
  assumes "quiet s"
  shows "quiet (''<reply></reply>'' @ s)"
proof -
  have tg: "tagField ''<name>'' ''</name>'' (''<reply></reply>'' @ s) = tagField ''<name>'' ''</name>'' s"
    "tagField ''<description>'' ''</description>'' (''<reply></reply>'' @ s) = tagField ''<description>'' ''</description>'' s"
    "tagField ''<hookCode>'' ''</hookCode>'' (''<reply></reply>'' @ s) = tagField ''<hookCode>'' ''</hookCode>'' s"
    "tagField ''<testCode>'' ''</testCode>'' (''<reply></reply>'' @ s) = tagField ''<testCode>'' ''</testCode>'' s"
    "tagField ''<reply>'' ''</reply>'' (''<reply></reply>'' @ s) = None"
    "gasField (''<reply></reply>'' @ s) = gasField s"
    by (simp_all add: tag_eval)
  have ex: "exampleMatches (''<reply></reply>'' @ s) = exampleMatches s"
    by (subst exampleMatches.simps, subst (2) exampleMatches.simps) (simp add: tag_eval)
  have fe: "featureMatches (''<reply></reply>'' @ s) = featureMatches s"
    by (subst featureMatches.simps, subst (2) featureMatches.simps)
      (simp add: feature_regex_def lit_def)
  have co: "complexityField (''<reply></reply>'' @ s) = complexityField s"
    by (simp add: complexityField_def complexity_regex_def lit_def toLowerCase_def lowerChar_def)
  have ph: "phraseField (''<reply></reply>'' @ s) = phraseField s"
    by (simp add: phraseField_def hookTypes_def includes_str_def toLowerCase_def lowerChar_def)
  from assms show ?thesis
    unfolding quiet_def tg ex fe co ph listField_empty_capture by simp
qed

lemma quiet_region:
  assumes q: "quiet s" and t: "t \<in> set emptyRegions"
  shows "quiet (t @ s)"
proof -
  from t have "t = ''<name></name>'' \<or> t = ''<description></description>''
    \<or> t = ''<hookCode></hookCode>'' \<or> t = ''<gasEstimate></gasEstimate>''
    \<or> t = ''<testCode></testCode>'' \<or> t = ''<example></example>'' \<or> t = ''<reply></reply>''"
    unfolding emptyRegions_def by (simp only: list.set insert_iff empty_iff simp_thms)
  then show ?thesis
  proof (elim disjE)
    assume "t = ''<name></name>''"
    with quiet_name [OF q] show ?thesis by (simp only:)
  next
    assume "t = ''<description></description>''"
    with quiet_description [OF q] show ?thesis by (simp only:)
  next
    assume "t = ''<hookCode></hookCode>''"
    with quiet_hookCode [OF q] show ?thesis by (simp only:)
  next
    assume "t = ''<gasEstimate></gasEstimate>''"
    with quiet_gasEstimate [OF q] show ?thesis by (simp only:)
  next
    assume "t = ''<testCode></testCode>''"
    with quiet_testCode [OF q] show ?thesis by (simp only:)
  next
    assume "t = ''<example></example>''"
    with quiet_example [OF q] show ?thesis by (simp only:)
  next
    assume "t = ''<reply></reply>''"
    with quiet_reply [OF q] show ?thesis by (simp only:)
  qed
qed

lemma quiet_concat: "set ts \<subseteq> set emptyRegions \<Longrightarrow> quiet (concat ts)"
proof (induction ts)
  case Nil
  then show ?case by (simp add: quiet_Nil)
next
  case (Cons t ts)
  then have q: "quiet (concat ts)" and t: "t \<in> set emptyRegions" by simp_all
  from quiet_region [OF q t] show ?case by simp
qed


text \<open>
  C10, as stated, fails for content that is only white space: the test \<^verbatim>\<open>m && m[1]\<close>
  looks at the group before it is trimmed, so \<^verbatim>\<open><name>   </name>\<close> sets the name to the
  empty string, counts as data found, and the hook type is defaulted.
\<close>

theorem whitespace_region_counterexample:
  "extractTagsFromContent ''<name>   </name>''
     = Some (emptyData \<lparr> name := Some [], hookType := Some ''custom'' \<rparr>)
   \<and> name (getFinalData (feed newHandler [''<name>   </name>''])) = Some []
   \<and> hookType (getFinalData (feed newHandler [''<name>   </name>''])) = Some ''custom''"
  by code_simp

text \<open>
  C10, amended: a completed tag pair with nothing at all between the tags never sets its
  field and does not count as data found. A buffer made only of such pairs, for the tags
  that fill a field or a list entry, gives no record: the extraction returns
  \<^verbatim>\<open>null\<close>, and after a session on such a buffer, however it was cut into fragments, the
  final record has no field and no hook type.
\<close>

theorem empty_regions_set_nothing:
  assumes "set ts \<subseteq> set emptyRegions" and "concat fs = concat ts"
  shows "extractTagsFromContent (concat ts) = None
    \<and> getFinalData (feed newHandler fs) = emptyData"
proof -
  from quiet_concat [OF assms(1)] have n: "extractTagsFromContent (concat ts) = None"
    by (simp add: extract_None_quiet)
  then have "known (concat fs) = emptyData" by (simp add: known_def assms(2))
  then have "getFinalData (feed newHandler fs) = emptyData"
    by (simp add: getFinalData_feed Let_def truthy_def emptyData_def)
  with n show ?thesis by simp
qed

theorem empty_regions_set_nothing_witness:
  "set [''<name></name>'', ''<example></example>'', ''<gasEstimate></gasEstimate>'']
     \<subseteq> set emptyRegions
   \<and> concat [''<name></na'', ''me><example></example><gasEsti'', ''mate></gasEstimate>'']
     = concat [''<name></name>'', ''<example></example>'', ''<gasEstimate></gasEstimate>'']
   \<and> extractTagsFromContent
       (concat [''<name></name>'', ''<example></example>'', ''<gasEstimate></gasEstimate>''])
     = None
   \<and> getFinalData (feed newHandler
       [''<name></na'', ''me><example></example><gasEsti'', ''mate></gasEstimate>''])
     = emptyData"
proof -
  have 1: "set [''<name></name>'', ''<example></example>'', ''<gasEstimate></gasEstimate>'']
     \<subseteq> set emptyRegions"
    by (simp add: emptyRegions_def)
  have 2: "concat [''<name></na'', ''me><example></example><gasEsti'', ''mate></gasEstimate>'']
     = concat [''<name></name>'', ''<example></example>'', ''<gasEstimate></gasEstimate>'']"
    by simp
  from empty_regions_set_nothing [OF 1 2] 1 2 show ?thesis by (simp only: simp_thms)
qed

end
